theory Spec2Isabelle
  imports Complex_Main
begin

section \<open>The wind dataset of tawhiri: axes, shape and checklists\<close>

text \<open>
  This theory embeds \<^verbatim>\<open>tawhiri/wind/__init__.py\<close>: the class \<^verbatim>\<open>Dataset\<close> with its
  axes, its shape and its directory listing, and the GRIB ingestion \<^verbatim>\<open>unpack_grib\<close>
  with its helpers \<^verbatim>\<open>_grib_records\<close>, \<^verbatim>\<open>_check_record\<close> and \<^verbatim>\<open>_check_axes\<close>.
  Python exceptions are values of the type \<open>error\<close>; objects that the caller passes by
  reference live in an explicit store, so that what a call does to them can be stated.
\<close>

subsection \<open>Exceptions\<close>

type_synonym location = "nat \<times> nat \<times> nat"
type_synonym location_name = "int \<times> int \<times> string"

datatype error =
    NotInList
  | IndexError
  | KeyError
  | TypeError
  | ShapeMismatch
  | RepeatedInFile location_name
  | AlreadyUnpacked location_name
  | IncorrectForecastTime
  | UnexpectedRecord location_name
  | UnexpectedLatitudes
  | UnexpectedLongitudes
  | RecordsMissing
  | ChecklistRace
  | CallbackError string

subsection \<open>Python and numpy primitives used by the class body\<close>

text \<open>\<^verbatim>\<open>range(start, stop, step)\<close> for a positive step.\<close>

definition py_range :: "int \<Rightarrow> int \<Rightarrow> int \<Rightarrow> int list" where
  "py_range start stop step =
     map (\<lambda>i. start + int i * step) [0 ..< nat ((stop - start + step - 1) div step)]"

text \<open>
  \<^verbatim>\<open>numpy.arange(start, stop, step)\<close>: \<open>ceil((stop - start) / step)\<close> values
  \<open>start + i * step\<close>. Every value the source builds with it is a multiple of one
  half, which a binary float represents exactly, so rationals stand for the floats.
\<close>

definition arange :: "rat \<Rightarrow> rat \<Rightarrow> rat \<Rightarrow> rat list" where
  "arange start stop step =
     map (\<lambda>i. start + of_nat i * step) [0 ..< nat \<lceil>(stop - start) / step\<rceil>]"

text \<open>\<^verbatim>\<open>sorted(xs, reverse=True)\<close>: a stable sort into descending order.\<close>

definition sorted_reverse :: "int list \<Rightarrow> int list" where
  "sorted_reverse xs = sort_key uminus xs"

text \<open>
  \<^verbatim>\<open>xs.index(x)\<close>: the first position of \<open>x\<close>, or \<^verbatim>\<open>ValueError\<close> (here \<open>NotInList\<close>)
  when \<open>x\<close> is not an element.
\<close>

fun index_from :: "nat \<Rightarrow> 'a list \<Rightarrow> 'a \<Rightarrow> error + nat" where
  "index_from i [] x = Inl NotInList"
| "index_from i (y # ys) x = (if y = x then Inr i else index_from (Suc i) ys x)"

definition index :: "'a list \<Rightarrow> 'a \<Rightarrow> error + nat" where
  "index xs x = index_from 0 xs x"

subsection \<open>The class Dataset: shape and axes\<close>

definition shape :: "nat list" where
  "shape = [65, 47, 3, 361, 720]"

definition pressures_pgrb2f :: "int list" where
  "pressures_pgrb2f = [10, 20, 30, 50, 70, 100, 150, 200, 250, 300, 350, 400,
                       450, 500, 550, 600, 650, 700, 750, 800, 850, 900, 925,
                       950, 975, 1000]"

definition pressures_pgrb2bf :: "int list" where
  "pressures_pgrb2bf = [1, 2, 3, 5, 7, 125, 175, 225, 275, 325, 375, 425,
                        475, 525, 575, 625, 675, 725, 775, 825, 875]"

record axes_type =
  hour :: "int list"
  pressure :: "int list"
  variable :: "string list"
  latitude :: "rat list"
  longitude :: "rat list"

definition axes :: axes_type where
  "axes = \<lparr> hour = py_range 0 (192 + 3) 3,
            pressure = sorted_reverse (pressures_pgrb2f @ pressures_pgrb2bf),
            variable = [''height'', ''wind_u'', ''wind_v''],
            latitude = arange (- 90) (90 + 1 / 2) (1 / 2),
            longitude = arange 0 360 (1 / 2) \<rparr>"

text \<open>\<^verbatim>\<open>tuple(len(x) for x in axes)\<close>, the right-hand side of the class body's assertion.\<close>

definition axes_lengths :: "axes_type \<Rightarrow> nat list" where
  "axes_lengths a =
     [length (hour a), length (pressure a), length (variable a),
      length (latitude a), length (longitude a)]"

subsection \<open>Boolean arrays\<close>

text \<open>
  A numpy array is its shape and its elements in row-major (C) order. A checklist is a
  three-dimensional array of booleans, indexed by a location (a triple of positions).
  An index outside the shape raises \<^verbatim>\<open>IndexError\<close>; operands of unequal shapes are
  refused (\<open>ShapeMismatch\<close>; numpy's broadcasting of unequal shapes is not modelled).
\<close>

record 'a ndarray =
  arr_shape :: "nat list"
  arr_data :: "'a list"

definition zeros :: "nat list \<Rightarrow> bool ndarray" where
  "zeros shp = \<lparr> arr_shape = shp, arr_data = replicate (prod_list shp) False \<rparr>"

fun offset :: "nat list \<Rightarrow> location \<Rightarrow> error + nat" where
  "offset [a, b, c] (i, j, k) =
     (if i < a \<and> j < b \<and> k < c then Inr ((i * b + j) * c + k) else Inl IndexError)"
| "offset shp loc = Inl IndexError"

definition getitem :: "'a ndarray \<Rightarrow> location \<Rightarrow> error + 'a" where
  "getitem a loc =
     (case offset (arr_shape a) loc of
        Inl e \<Rightarrow> Inl e
      | Inr n \<Rightarrow> if n < length (arr_data a) then Inr (arr_data a ! n) else Inl IndexError)"

definition setitem :: "'a ndarray \<Rightarrow> location \<Rightarrow> 'a \<Rightarrow> error + 'a ndarray" where
  "setitem a loc v =
     (case offset (arr_shape a) loc of
        Inl e \<Rightarrow> Inl e
      | Inr n \<Rightarrow> if n < length (arr_data a)
                then Inr (a\<lparr> arr_data := (arr_data a)[n := v] \<rparr>)
                else Inl IndexError)"

text \<open>\<^verbatim>\<open>a & b\<close>, \<^verbatim>\<open>a |= b\<close> (the new value of \<open>a\<close>) and \<^verbatim>\<open>a.any()\<close>.\<close>

definition array_and :: "bool ndarray \<Rightarrow> bool ndarray \<Rightarrow> error + bool ndarray" where
  "array_and a b =
     (if arr_shape a = arr_shape b \<and> length (arr_data a) = length (arr_data b)
      then Inr \<lparr> arr_shape = arr_shape a,
                 arr_data = map2 (\<and>) (arr_data a) (arr_data b) \<rparr>
      else Inl ShapeMismatch)"

definition array_ior :: "bool ndarray \<Rightarrow> bool ndarray \<Rightarrow> error + bool ndarray" where
  "array_ior a b =
     (if arr_shape a = arr_shape b \<and> length (arr_data a) = length (arr_data b)
      then Inr (a\<lparr> arr_data := map2 (\<or>) (arr_data a) (arr_data b) \<rparr>)
      else Inl ShapeMismatch)"

definition array_any :: "bool ndarray \<Rightarrow> bool" where
  "array_any a = list_ex (\<lambda>b. b) (arr_data a)"

text \<open>\<^verbatim>\<open>Dataset.checklist()\<close>: \<^verbatim>\<open>np.zeros(cls.shape[0:3], dtype=np.bool_)\<close>.\<close>

definition Dataset_checklist :: "bool ndarray" where
  "Dataset_checklist = zeros (take 3 shape)"

section \<open>Ingestion of one GRIB file\<close>

subsection \<open>Decoded records and the record generator\<close>

text \<open>
  A decoded record as pygrib hands it over. The grid \<^verbatim>\<open>record.values\<close> is stored and
  never inspected, so its type is a parameter; \<^verbatim>\<open>record.tostring()\<close> is a byte string.
\<close>

record 'g message =
  typeOfLevel :: string
  name :: string
  forecastTime :: int
  level :: int
  distinctLatitudes :: "rat list"
  distinctLongitudes :: "rat list"
  values_grid :: 'g
  tostring :: string

definition grib_name_to_variable :: "string \<Rightarrow> string option" where
  "grib_name_to_variable =
     map_of [(''Geopotential Height'', ''height''),
             (''U component of wind'', ''wind_u''),
             (''V component of wind'', ''wind_v'')]"

type_synonym 'g item = "'g message \<times> location \<times> location_name"

text \<open>
  One step of the generator \<^verbatim>\<open>_grib_records\<close>: \<open>None\<close> for a record it skips, an
  error when an axis lookup raises, otherwise the triple it yields. \<open>locate\<close> is the
  expression \<^verbatim>\<open>tuple(Dataset.axes[i].index(n) for i, n in enumerate(location_name))\<close>:
  the lookups run in the order hour, pressure, variable.
\<close>

definition locate :: "location_name \<Rightarrow> error + location" where
  "locate location_name =
     (case location_name of (h, p, v) \<Rightarrow>
        (case index (hour axes) h of
           Inl e \<Rightarrow> Inl e
         | Inr i \<Rightarrow>
        (case index (pressure axes) p of
           Inl e \<Rightarrow> Inl e
         | Inr j \<Rightarrow>
        (case index (variable axes) v of
           Inl e \<Rightarrow> Inl e
         | Inr k \<Rightarrow> Inr (i, j, k)))))"

definition grib_record :: "'g message \<Rightarrow> (error + 'g item) option" where
  "grib_record r =
     (if typeOfLevel r \<noteq> ''isobaricInhPa'' then None
      else
        (case grib_name_to_variable (name r) of
           None \<Rightarrow> None
         | Some v \<Rightarrow>
             Some (let location_name = (forecastTime r, level r, v) in
                   case locate location_name of
                     Inl e \<Rightarrow> Inl e
                   | Inr loc \<Rightarrow> Inr (r, loc, location_name))))"

text \<open>
  The generator is lazy: an axis miss is raised when the consumer reaches that record.
  Its output is therefore a list whose elements are yields or errors, consumed in order.
\<close>

definition grib_records :: "'g message list \<Rightarrow> (error + 'g item) list" where
  "grib_records msgs = List.map_filter grib_record msgs"

subsection \<open>The store, the arguments and the local variables\<close>

text \<open>
  The caller passes the dataset, the checklist, the mirror and the manifest by
  reference. They live in a store, addressed by natural numbers; the arguments hold
  addresses (or \<^verbatim>\<open>None\<close>). The dataset's array is addressed by location: each element
  is the latitude by longitude grid of one slot. A mirror is the bytes written so far.
\<close>

type_synonym addr = nat

record 'g world =
  bool_arrays :: "addr \<Rightarrow> bool ndarray"
  name_sets :: "addr \<Rightarrow> location_name set"
  float_arrays :: "addr \<Rightarrow> location \<Rightarrow> 'g"
  byte_sinks :: "addr \<Rightarrow> string"

text \<open>
  \<open>grib\<close> is what \<^verbatim>\<open>pygrib.open(filename)\<close> iterates over. The callback is the
  caller's code. It receives the location and its name; whatever it does (other
  ingestions run while the task is suspended in it) is a change of the store, and it
  returns or raises an exception of its own (\<open>CallbackError\<close>, or any other).
\<close>

record 'g arguments =
  grib :: "'g message list"
  dataset :: "addr option"
  checklist :: "addr option"
  gribmirror :: "addr option"
  assert_hour :: "int option"
  file_checklist :: "addr option"
  callback ::
    "(location \<Rightarrow> location_name \<Rightarrow> 'g world \<Rightarrow> error option \<times> 'g world) option"

text \<open>
  The local name \<^verbatim>\<open>file_checklist\<close> is bound to \<^verbatim>\<open>None\<close>, to the set the caller
  passed, or to a set object of the call's own (the result of \<^verbatim>\<open>.copy()\<close>), which no
  one else can reach and which is therefore kept with the local variables.
\<close>

datatype set_ref = Passed addr | Copied "location_name set"

record locals =
  checklist_temp :: "bool ndarray"
  checked_axes :: bool
  file_checklist_local :: "set_ref option"

fun deref :: "'g world \<Rightarrow> set_ref \<Rightarrow> location_name set" where
  "deref w (Passed a) = name_sets w a"
| "deref w (Copied s) = s"

text \<open>\<^verbatim>\<open>s.copy()\<close>: a new set object with the same elements.\<close>

definition set_copy :: "'g world \<Rightarrow> set_ref \<Rightarrow> set_ref" where
  "set_copy w r = Copied (deref w r)"

text \<open>\<^verbatim>\<open>s.remove(x)\<close>: mutates the object \<open>s\<close> refers to; \<^verbatim>\<open>KeyError\<close> when \<open>x\<close> is absent.\<close>

fun set_remove :: "set_ref \<Rightarrow> location_name \<Rightarrow> 'g world \<Rightarrow> error + ('g world \<times> set_ref)" where
  "set_remove (Passed a) x w =
     (if x \<in> name_sets w a
      then Inr (w\<lparr> name_sets := (name_sets w)(a := name_sets w a - {x}) \<rparr>, Passed a)
      else Inl KeyError)"
| "set_remove (Copied s) x w =
     (if x \<in> s then Inr (w, Copied (s - {x})) else Inl KeyError)"

subsection \<open>The checks on one record\<close>

text \<open>\<^verbatim>\<open>_check_record\<close>: \<open>None\<close> when it returns, the error when it raises.\<close>

definition check_record ::
  "'g world \<Rightarrow> 'g message \<Rightarrow> location \<Rightarrow> location_name \<Rightarrow> bool ndarray \<Rightarrow>
   addr option \<Rightarrow> int option \<Rightarrow> set_ref option \<Rightarrow> error option" where
  "check_record w r loc location_name temp chk hour_wanted fc =
     (case getitem temp loc of
        Inl e \<Rightarrow> Some e
      | Inr True \<Rightarrow> Some (RepeatedInFile location_name)
      | Inr False \<Rightarrow>
     (case (case chk of None \<Rightarrow> Inr False | Some c \<Rightarrow> getitem (bool_arrays w c) loc) of
        Inl e \<Rightarrow> Some e
      | Inr True \<Rightarrow> Some (AlreadyUnpacked location_name)
      | Inr False \<Rightarrow>
        if (case hour_wanted of None \<Rightarrow> False | Some h \<Rightarrow> forecastTime r \<noteq> h)
        then Some IncorrectForecastTime
        else if (case fc of None \<Rightarrow> False | Some s \<Rightarrow> location_name \<notin> deref w s)
        then Some (UnexpectedRecord location_name)
        else None))"

text \<open>\<^verbatim>\<open>_check_axes\<close>: \<^verbatim>\<open>np.array_equal\<close> of the record's axes and the dataset's.\<close>

definition check_axes :: "'g message \<Rightarrow> error option" where
  "check_axes r =
     (if distinctLatitudes r \<noteq> latitude axes then Some UnexpectedLatitudes
      else if distinctLongitudes r \<noteq> longitude axes then Some UnexpectedLongitudes
      else None)"

subsection \<open>The loop of unpack\_grib\<close>

text \<open>
  The body of the loop for one yielded record, up to the call of the callback. It
  returns the error raised (if any) with the store and the local variables as they
  are at that moment: what was written before a raise stays written. \<open>write_record\<close>
  is the two writes in the middle of the body, into the dataset's array and into the
  mirror, each done when the argument is not \<^verbatim>\<open>None\<close>. Both are taken to succeed: the
  grid of a record fits a slot of the array, and the mirror accepts the bytes.
\<close>

definition write_record :: "'g arguments \<Rightarrow> 'g item \<Rightarrow> 'g world \<Rightarrow> 'g world" where
  "write_record args it w =
     (case it of (r, loc, location_name) \<Rightarrow>
        let w1 = (case dataset args of
                    None \<Rightarrow> w
                  | Some d \<Rightarrow>
                      w\<lparr> float_arrays :=
                          (float_arrays w)(d := (float_arrays w d)(loc := values_grid r)) \<rparr>)
        in (case gribmirror args of
              None \<Rightarrow> w1
            | Some m \<Rightarrow>
                w1\<lparr> byte_sinks := (byte_sinks w1)(m := byte_sinks w1 m @ tostring r) \<rparr>))"

definition unpack_record ::
  "'g arguments \<Rightarrow> 'g item \<Rightarrow> 'g world \<times> locals \<Rightarrow> error option \<times> 'g world \<times> locals" where
  "unpack_record args it ws =
     (case it of (r, loc, location_name) \<Rightarrow>
      case ws of (w, s) \<Rightarrow>
      (case check_record w r loc location_name (checklist_temp s) (checklist args)
              (assert_hour args) (file_checklist_local s) of
         Some e \<Rightarrow> (Some e, w, s)
       | None \<Rightarrow>
      (case (if checked_axes s then None else check_axes r) of
         Some e \<Rightarrow> (Some e, w, s)
       | None \<Rightarrow>
         let s1 = s\<lparr> checked_axes := True \<rparr>;
             w2 = write_record args it w
         in
         (case setitem (checklist_temp s1) loc True of
            Inl e \<Rightarrow> (Some e, w2, s1)
          | Inr t \<Rightarrow>
            let s2 = s1\<lparr> checklist_temp := t \<rparr> in
            (case file_checklist_local s2 of
               None \<Rightarrow> (None, w2, s2)
             | Some fc \<Rightarrow>
               (case set_remove fc location_name w2 of
                  Inl e \<Rightarrow> (Some e, w2, s2)
                | Inr (w3, fc') \<Rightarrow>
                    (None, w3, s2\<lparr> file_checklist_local := Some fc' \<rparr>)))))))"

text \<open>
  The last statement of the body: the call of the callback, when there is one. An
  exception that the callback raises leaves the loop and the function.
\<close>

definition run_callback ::
  "'g arguments \<Rightarrow> 'g item \<Rightarrow> 'g world \<Rightarrow> error option \<times> 'g world" where
  "run_callback args it w =
     (case callback args of
        None \<Rightarrow> (None, w)
      | Some cb \<Rightarrow> (case it of (r, loc, location_name) \<Rightarrow> cb loc location_name w))"

fun unpack_loop ::
  "'g arguments \<Rightarrow> (error + 'g item) list \<Rightarrow> 'g world \<times> locals \<Rightarrow>
   error option \<times> 'g world \<times> locals" where
  "unpack_loop args [] ws = (None, ws)"
| "unpack_loop args (Inl e # rest) ws = (Some e, ws)"
| "unpack_loop args (Inr it # rest) ws =
     (case unpack_record args it ws of
        (Some e, ws') \<Rightarrow> (Some e, ws')
      | (None, w', s') \<Rightarrow>
          (case run_callback args it w' of
             (Some e, w'') \<Rightarrow> (Some e, w'', s')
           | (None, w'') \<Rightarrow> unpack_loop args rest (w'', s')))"

subsection \<open>After the loop\<close>

text \<open>
  The three statements after the loop: the comparison \<^verbatim>\<open>file_checklist != set()\<close>
  (which is true of \<^verbatim>\<open>None\<close>, as \<^verbatim>\<open>None\<close> is not equal to a set), the overlap test and
  the in-place merge. \<^verbatim>\<open>None & array\<close> is a \<^verbatim>\<open>TypeError\<close>.
\<close>

definition finish :: "'g arguments \<Rightarrow> 'g world \<Rightarrow> locals \<Rightarrow> error option \<times> 'g world" where
  "finish args w s =
     (if (case file_checklist_local s of None \<Rightarrow> True | Some fc \<Rightarrow> deref w fc \<noteq> {})
      then (Some RecordsMissing, w)
      else
        (case checklist args of
           None \<Rightarrow> (Some TypeError, w)
         | Some c \<Rightarrow>
           (case array_and (bool_arrays w c) (checklist_temp s) of
              Inl e \<Rightarrow> (Some e, w)
            | Inr both \<Rightarrow>
                if array_any both then (Some ChecklistRace, w)
                else
                  (case array_ior (bool_arrays w c) (checklist_temp s) of
                     Inl e \<Rightarrow> (Some e, w)
                   | Inr merged \<Rightarrow>
                       (None, w\<lparr> bool_arrays := (bool_arrays w)(c := merged) \<rparr>)))))"

subsection \<open>unpack\_grib\<close>

text \<open>
  The local variables when the loop starts: \<^verbatim>\<open>file_checklist\<close> rebound to a copy when
  it is not \<^verbatim>\<open>None\<close>, a fresh \<^verbatim>\<open>checklist_temp\<close>, and \<^verbatim>\<open>checked_axes = False\<close>.
  The assertions at the top of the function compare attributes of the class
  \<^verbatim>\<open>Dataset\<close> with themselves and never fail for an instance of it.
\<close>

definition initial_locals :: "'g arguments \<Rightarrow> 'g world \<Rightarrow> locals" where
  "initial_locals args w =
     \<lparr> checklist_temp = Dataset_checklist,
       checked_axes = False,
       file_checklist_local =
         (case map_option Passed (file_checklist args) of
            None \<Rightarrow> None
          | Some fc \<Rightarrow> Some (set_copy w fc)) \<rparr>"

text \<open>
  The result is the exception raised (\<open>None\<close> when the call returns) and the store
  the call leaves behind.
\<close>

definition unpack_grib :: "'g arguments \<Rightarrow> 'g world \<Rightarrow> error option \<times> 'g world" where
  "unpack_grib args w =
     (case unpack_loop args (grib_records (grib args)) (w, initial_locals args w) of
        (Some e, w', s') \<Rightarrow> (Some e, w')
      | (None, w', s') \<Rightarrow> finish args w' s')"

section \<open>Interleaved ingestions\<close>

text \<open>
  Ingestions run as cooperative tasks: a task is suspended only inside its callback,
  so between two suspensions it runs one block of \<^verbatim>\<open>unpack_grib\<close> undisturbed: either
  the body of the loop for the next record, followed by what the callback itself does
  to the store, or (when the generator is exhausted) the statements after the loop. A
  task keeps its arguments, what its generator has still to yield, and its local
  variables; it fails with the exception that its block raises, be it the callback's.
  The statements before the loop run no callback and read nothing but the manifest, so
  a task has its local variables from the moment it is started.
\<close>

datatype status = Running | Failed error | Succeeded

record 'g task =
  task_args :: "'g arguments"
  pending :: "(error + 'g item) list"
  task_locals :: locals
  task_status :: status

definition spawn :: "'g world \<Rightarrow> 'g arguments \<Rightarrow> 'g task" where
  "spawn w args =
     \<lparr> task_args = args,
       pending = grib_records (grib args),
       task_locals = initial_locals args w,
       task_status = Running \<rparr>"

text \<open>One block of a task, from where it was resumed to its next suspension or its end.\<close>

definition task_step :: "'g task \<Rightarrow> 'g world \<Rightarrow> 'g task \<times> 'g world" where
  "task_step t w =
     (if task_status t \<noteq> Running then (t, w)
      else
        (case pending t of
           [] \<Rightarrow>
             (case finish (task_args t) w (task_locals t) of
                (None, w') \<Rightarrow> (t\<lparr> task_status := Succeeded \<rparr>, w')
              | (Some e, w') \<Rightarrow> (t\<lparr> task_status := Failed e \<rparr>, w'))
         | Inl e # rest \<Rightarrow> (t\<lparr> task_status := Failed e \<rparr>, w)
         | Inr it # rest \<Rightarrow>
             (case unpack_record (task_args t) it (w, task_locals t) of
                (Some e, w', s') \<Rightarrow> (t\<lparr> task_locals := s', task_status := Failed e \<rparr>, w')
              | (None, w', s') \<Rightarrow>
                  (case run_callback (task_args t) it w' of
                     (Some e, w'') \<Rightarrow> (t\<lparr> task_locals := s', task_status := Failed e \<rparr>, w'')
                   | (None, w'') \<Rightarrow> (t\<lparr> pending := rest, task_locals := s' \<rparr>, w'')))))"

text \<open>
  The tasks share one store. A schedule names, block after block, the task that runs
  next; a name that is no task, or the name of a finished task, changes nothing.
\<close>

record 'g system =
  sys_world :: "'g world"
  sys_tasks :: "'g task list"

definition sys_step :: "nat \<Rightarrow> 'g system \<Rightarrow> 'g system" where
  "sys_step i sys =
     (if i < length (sys_tasks sys)
      then
        (case task_step (sys_tasks sys ! i) (sys_world sys) of
           (t', w') \<Rightarrow> \<lparr> sys_world = w', sys_tasks = (sys_tasks sys)[i := t'] \<rparr>)
      else sys)"

fun run :: "nat list \<Rightarrow> 'g system \<Rightarrow> 'g system" where
  "run [] sys = sys"
| "run (i # schedule) sys = run schedule (sys_step i sys)"

definition start :: "'g world \<Rightarrow> 'g arguments list \<Rightarrow> 'g system" where
  "start w calls = \<lparr> sys_world = w, sys_tasks = map (spawn w) calls \<rparr>"

text \<open>The slots a task has marked in its own \<^verbatim>\<open>checklist_temp\<close>.\<close>

definition marked :: "'g task \<Rightarrow> location set" where
  "marked t = {loc. getitem (checklist_temp (task_locals t)) loc = Inr True}"

section \<open>Listing the datasets of a directory\<close>

text \<open>
  A timestamp is a year, a month, a day and an hour. \<^verbatim>\<open>datetime.strptime\<close> belongs to
  Python's library, not to this repository; \<open>listdir\<close> takes the parser as a parameter
  (\<open>None\<close> where it raises \<^verbatim>\<open>ValueError\<close>), and the result of \<^verbatim>\<open>os.listdir\<close> as a list.
\<close>

type_synonym datetime = "nat \<times> nat \<times> nat \<times> nat"

record dataset_in_row =
  ds_time :: datetime
  suffix :: string
  filename :: string
  path :: string

text \<open>\<^verbatim>\<open>os.path.join(a, b)\<close> of \<^verbatim>\<open>posixpath\<close>.\<close>

definition path_join :: "string \<Rightarrow> string \<Rightarrow> string" where
  "path_join a b =
     (if b \<noteq> [] \<and> hd b = CHR ''/'' then b
      else if a = [] \<or> last a = CHR ''/'' then a @ b
      else a @ ''/'' @ b)"

text \<open>
  The generator \<^verbatim>\<open>Dataset.listdir\<close>, as the list of what it yields. The test
  \<^verbatim>\<open>only_suffices and suffix not in only_suffices\<close> is false for \<^verbatim>\<open>None\<close> and for an
  empty collection, which Python counts as false.
\<close>

fun listdir ::
  "(string \<Rightarrow> datetime option) \<Rightarrow> string list \<Rightarrow> string \<Rightarrow> string set option \<Rightarrow>
   dataset_in_row list" where
  "listdir strptime [] directory only_suffices = []"
| "listdir strptime (fn # entries) directory only_suffices =
     (if length fn < 10 then listdir strptime entries directory only_suffices
      else
        (case strptime (take 10 fn) of
           None \<Rightarrow> listdir strptime entries directory only_suffices
         | Some t \<Rightarrow>
             if (case only_suffices of None \<Rightarrow> False | Some S \<Rightarrow> S \<noteq> {} \<and> drop 10 fn \<notin> S)
             then listdir strptime entries directory only_suffices
             else \<lparr> ds_time = t, suffix = drop 10 fn, filename = fn,
                    path = path_join directory fn \<rparr>
                  # listdir strptime entries directory only_suffices))"

text \<open>
  \<^verbatim>\<open>datetime.strptime(s, "%Y%m%d%H")\<close> on a string of ten ASCII characters, the only
  strings \<open>listdir\<close> parses: four digits of year, two of month, two of day (the first
  may be a space), two of hour, and the date has to exist.
\<close>

definition digit_val :: "char \<Rightarrow> nat option" where
  "digit_val c =
     (let n = (of_char c :: nat) in if 48 \<le> n \<and> n \<le> 57 then Some (n - 48) else None)"

fun number_from :: "nat \<Rightarrow> string \<Rightarrow> nat option" where
  "number_from acc [] = Some acc"
| "number_from acc (c # cs) =
     (case digit_val c of None \<Rightarrow> None | Some d \<Rightarrow> number_from (10 * acc + d) cs)"

definition day_field :: "string \<Rightarrow> nat option" where
  "day_field s =
     (case s of
        [c1, c2] \<Rightarrow> if c1 = CHR '' '' then number_from 0 [c2] else number_from 0 [c1, c2]
      | _ \<Rightarrow> None)"

definition days_in_month :: "nat \<Rightarrow> nat \<Rightarrow> nat" where
  "days_in_month y m =
     (if m = 2 then (if y mod 4 = 0 \<and> (y mod 100 \<noteq> 0 \<or> y mod 400 = 0) then 29 else 28)
      else if m = 4 \<or> m = 6 \<or> m = 9 \<or> m = 11 then 30 else 31)"

definition strptime_YmdH :: "string \<Rightarrow> datetime option" where
  "strptime_YmdH s =
     (if length s \<noteq> 10 then None
      else
        (case number_from 0 (take 4 s) of
           None \<Rightarrow> None
         | Some y \<Rightarrow>
        (case number_from 0 (take 2 (drop 4 s)) of
           None \<Rightarrow> None
         | Some m \<Rightarrow>
        (case day_field (take 2 (drop 6 s)) of
           None \<Rightarrow> None
         | Some d \<Rightarrow>
        (case number_from 0 (drop 8 s) of
           None \<Rightarrow> None
         | Some h \<Rightarrow>
             if 1 \<le> y \<and> 1 \<le> m \<and> m \<le> 12 \<and> 1 \<le> d \<and> d \<le> days_in_month y m \<and> h \<le> 23
             then Some (y, m, d, h)
             else None)))))"

section \<open>Notions used in the statements\<close>

text \<open>An array of the shape and size that \<^verbatim>\<open>Dataset.checklist()\<close> gives.\<close>

definition is_checklist :: "bool ndarray \<Rightarrow> bool" where
  "is_checklist a =
     (arr_shape a = arr_shape Dataset_checklist \<and>
      length (arr_data a) = length (arr_data Dataset_checklist))"

text \<open>A location inside the first three axes of the dataset.\<close>

definition in_range :: "location \<Rightarrow> bool" where
  "in_range loc = (case offset (take 3 shape) loc of Inl e \<Rightarrow> False | Inr n \<Rightarrow> True)"

text \<open>The components of what the generator yields.\<close>

definition item_record :: "'g item \<Rightarrow> 'g message" where
  "item_record it = fst it"

definition item_location :: "'g item \<Rightarrow> location" where
  "item_location it = fst (snd it)"

definition item_name :: "'g item \<Rightarrow> location_name" where
  "item_name it = snd (snd it)"

text \<open>
  A checklist in which every slot of the set \<open>S\<close> is still false: no ingestion has
  committed one of them.
\<close>

definition free_for :: "location set \<Rightarrow> bool ndarray \<Rightarrow> bool" where
  "free_for S a = (is_checklist a \<and> (\<forall>loc \<in> S. getitem a loc = Inr False))"

text \<open>A checklist whose true slots are exactly those of the set \<open>D\<close>.\<close>

definition marks :: "bool ndarray \<Rightarrow> location set \<Rightarrow> bool" where
  "marks t D = (is_checklist t \<and> {loc. getitem t loc = Inr True} = D)"

text \<open>
  The store at the moment the loop of \<^verbatim>\<open>unpack_grib\<close> is left: after the last callback
  has returned, before the statements that follow the loop.
\<close>

definition before_commit :: "'g arguments \<Rightarrow> 'g world \<Rightarrow> 'g world" where
  "before_commit args w =
     fst (snd (unpack_loop args (grib_records (grib args)) (w, initial_locals args w)))"

text \<open>
  A task has committed when it has run the merge, that is, when its call has returned.
  A system is safe when the slots of every committed task are true in the checklist
  it was given, and no two committed tasks that were given the same checklist have a
  slot in common.
\<close>

definition committed :: "'g system \<Rightarrow> nat \<Rightarrow> bool" where
  "committed sys i =
     (i < length (sys_tasks sys) \<and> task_status (sys_tasks sys ! i) = Succeeded)"

definition safe :: "'g system \<Rightarrow> bool" where
  "safe sys =
     (\<forall>i. committed sys i \<longrightarrow>
        (\<forall>c. checklist (task_args (sys_tasks sys ! i)) = Some c \<longrightarrow>
             marked (sys_tasks sys ! i) \<subseteq>
               {loc. getitem (bool_arrays (sys_world sys) c) loc = Inr True}) \<and>
        (\<forall>j. committed sys j \<and> i \<noteq> j \<and>
             checklist (task_args (sys_tasks sys ! i)) =
               checklist (task_args (sys_tasks sys ! j)) \<longrightarrow>
             marked (sys_tasks sys ! i) \<inter> marked (sys_tasks sys ! j) = {}))"

text \<open>A call whose callback does not itself write any boolean array of the store.\<close>

definition quiet_callback :: "'g arguments \<Rightarrow> bool" where
  "quiet_callback args = (\<forall>it v. bool_arrays (snd (run_callback args it v)) = bool_arrays v)"

text \<open>
  How a call ends when it runs from the given point of its loop without being
  interleaved with others: the status it ends with and the store it leaves.
\<close>

definition outcome ::
  "'g arguments \<Rightarrow> (error + 'g item) list \<Rightarrow> 'g world \<times> locals \<Rightarrow> status \<times> 'g world" where
  "outcome args items ws =
     (case unpack_loop args items ws of
        (Some e, v, s) \<Rightarrow> (Failed e, v)
      | (None, v, s) \<Rightarrow>
          (case finish args v s of
             (None, v') \<Rightarrow> (Succeeded, v')
           | (Some e, v') \<Rightarrow> (Failed e, v')))"

text \<open>Inputs for the examples: a record on the axes, an empty store, a call.\<close>

definition example_record :: "int \<Rightarrow> int \<Rightarrow> string \<Rightarrow> nat message" where
  "example_record h p n =
     \<lparr> typeOfLevel = ''isobaricInhPa'', name = n, forecastTime = h, level = p,
       distinctLatitudes = latitude axes, distinctLongitudes = longitude axes,
       values_grid = 7, tostring = ''GRIB'' \<rparr>"

definition example_world :: "location_name set \<Rightarrow> nat world" where
  "example_world manifest =
     \<lparr> bool_arrays = (\<lambda>a. Dataset_checklist), name_sets = (\<lambda>a. manifest),
       float_arrays = (\<lambda>a loc. 0), byte_sinks = (\<lambda>a. []) \<rparr>"

definition height_record :: "nat message" where
  "height_record = example_record 0 1000 ''Geopotential Height''"

definition height_item :: "nat item" where
  "height_item = (height_record, (0, 0, 0), (0, 1000, ''height''))"

definition example_call :: "nat message list \<Rightarrow> nat arguments" where
  "example_call msgs =
     \<lparr> grib = msgs, dataset = Some 0, checklist = Some 0, gribmirror = Some 0,
       assert_hour = None, file_checklist = Some 0, callback = None \<rparr>"

text \<open>
  A second file, with one record for another slot; a store with a manifest for each
  of the two files; and a callback during which another ingestion commits the slot
  (0, 0, 0) to the checklist at address 0.
\<close>

definition wind_record :: "nat message" where
  "wind_record = example_record 3 1000 ''U component of wind''"

definition wind_item :: "nat item" where
  "wind_item = (wind_record, (1, 0, 1), (3, 1000, ''wind_u''))"

definition two_manifests :: "nat world" where
  "two_manifests =
     \<lparr> bool_arrays = (\<lambda>a. Dataset_checklist),
       name_sets = (\<lambda>a. if a = 0 then {(0, 1000, ''height'')} else {(3, 1000, ''wind_u'')}),
       float_arrays = (\<lambda>a loc. 0), byte_sinks = (\<lambda>a. []) \<rparr>"

definition two_calls :: "nat arguments list" where
  "two_calls =
     [example_call [height_record],
      (example_call [wind_record])\<lparr> file_checklist := Some 1 \<rparr>]"

definition other_commits ::
  "location \<Rightarrow> location_name \<Rightarrow> nat world \<Rightarrow> error option \<times> nat world" where
  "other_commits loc location_name v =
     (None,
      v\<lparr> bool_arrays :=
          (bool_arrays v)(0 := (bool_arrays v 0)\<lparr> arr_data := (arr_data (bool_arrays v 0))[0 := True] \<rparr>) \<rparr>)"

definition raced_call :: "nat arguments" where
  "raced_call = (example_call [height_record])\<lparr> callback := Some other_commits \<rparr>"

section \<open>Axis lookups\<close>

lemma index_from_Inl: "(index_from i xs x = Inl e) = (x \<notin> set xs \<and> e = NotInList)"
  by (induction xs arbitrary: i) auto

lemma index_from_Inr:
  "index_from i xs x = Inr n \<Longrightarrow> i \<le> n \<and> n < i + length xs \<and> xs ! (n - i) = x"
proof (induction xs arbitrary: i)
  case Nil
  then show ?case by simp
next
  case (Cons y ys)
  show ?case
  proof (cases "y = x")
    case True
    with Cons.prems show ?thesis by simp
  next
    case False
    with Cons.prems have "index_from (Suc i) ys x = Inr n" by simp
    from Cons.IH[OF this] show ?thesis by (auto simp: nth_Cons')
  qed
qed

lemma index_Inl: "(index xs x = Inl e) = (x \<notin> set xs \<and> e = NotInList)"
  by (simp add: index_def index_from_Inl)

lemma index_Inr: "index xs x = Inr n \<Longrightarrow> n < length xs \<and> xs ! n = x"
  using index_from_Inr[of 0 xs x n] by (simp add: index_def)

lemma hour_axis: "hour axes = map (\<lambda>i. 3 * int i) [0 ..< 65]"
  by (simp add: axes_def py_range_def)

lemma pressure_axis:
  "pressure axes =
     [1000, 975, 950, 925, 900, 875, 850, 825, 800, 775, 750, 725, 700, 675, 650, 625,
      600, 575, 550, 525, 500, 475, 450, 425, 400, 375, 350, 325, 300, 275, 250, 225,
      200, 175, 150, 125, 100, 70, 50, 30, 20, 10, 7, 5, 3, 2, 1]"
  by (simp add: axes_def sorted_reverse_def pressures_pgrb2f_def pressures_pgrb2bf_def)

lemma variable_axis: "variable axes = [''height'', ''wind_u'', ''wind_v'']"
  by (simp add: axes_def)

lemma latitude_length: "length (latitude axes) = 361"
  by (simp add: axes_def arange_def)

lemma longitude_length: "length (longitude axes) = 720"
  by (simp add: axes_def arange_def)

lemma checklist_shape: "arr_shape Dataset_checklist = [65, 47, 3]"
  by (simp add: Dataset_checklist_def zeros_def shape_def)

text \<open>
  Claim C7. The lookup \<^verbatim>\<open>Dataset.axes[i].index(n)\<close> returns 0 for hour 0 on the hour
  axis, 0 for the pressure 1000 on the pressure axis (47 values in strictly descending
  order, so 1000, the largest, is first), and 0 for the variable \<^verbatim>\<open>height\<close>. On any
  axis, the lookup raises (the \<^verbatim>\<open>ValueError\<close> of \<^verbatim>\<open>list.index\<close>) exactly for the values
  that are not on the axis.
\<close>

theorem axis_index_lookup:
  "index (hour axes) 0 = Inr 0 \<and>
   length (pressure axes) = 47 \<and> sorted_wrt (>) (pressure axes) \<and>
   index (pressure axes) 1000 = Inr 0 \<and>
   index (variable axes) ''height'' = Inr 0 \<and>
   (\<forall>xs (x::'a). (index xs x = Inl NotInList) = (x \<notin> set xs))"
proof -
  have "index (hour axes) 0 = Inr 0"
    by (simp add: hour_axis index_def upt_conv_Cons)
  moreover have "length (pressure axes) = 47 \<and> sorted_wrt (>) (pressure axes)"
    by (simp add: pressure_axis)
  moreover have "index (pressure axes) 1000 = Inr 0"
    by (simp add: pressure_axis index_def)
  moreover have "index (variable axes) ''height'' = Inr 0"
    by (simp add: variable_axis index_def)
  ultimately show ?thesis by (simp add: index_Inl)
qed

subsection \<open>Offsets\<close>

lemma offset_Inr:
  "(offset shp loc = Inr n) =
   (\<exists>a b c i j k. shp = [a, b, c] \<and> loc = (i, j, k) \<and> i < a \<and> j < b \<and> k < c \<and>
      n = (i * b + j) * c + k)"
proof (cases "\<exists>a b c. shp = [a, b, c]")
  case True
  then obtain a b c where shp: "shp = [a, b, c]" by blast
  obtain i j k where loc: "loc = (i, j, k)" by (cases loc) auto
  show ?thesis unfolding shp loc by auto
next
  case False
  then have "offset shp loc = Inl IndexError"
    by (cases "(shp, loc)" rule: offset.cases) auto
  with False show ?thesis by auto
qed

lemma offset_Inl: "offset shp loc = Inl e \<Longrightarrow> e = IndexError"
  by (cases "(shp, loc)" rule: offset.cases) (auto split: if_splits)

lemma offset_bound:
  assumes "offset shp loc = Inr n"
  shows "n < prod_list shp"
proof -
  from assms obtain a b c i j k where
    shp: "shp = [a, b, c]" and "i < a" "j < b" "k < c" and n: "n = (i * b + j) * c + k"
    unfolding offset_Inr by blast
  have "i * b + j < a * b"
  proof -
    have "i * b + j < i * b + b" using \<open>j < b\<close> by simp
    also have "\<dots> = (Suc i) * b" by simp
    also have "\<dots> \<le> a * b" using \<open>i < a\<close> by (intro mult_le_mono1) simp
    finally show ?thesis .
  qed
  then have "(i * b + j) * c + k < (i * b + j) * c + c" using \<open>k < c\<close> by simp
  also have "\<dots> = Suc (i * b + j) * c" by simp
  also have "\<dots> \<le> (a * b) * c" using \<open>i * b + j < a * b\<close> by (intro mult_le_mono1) simp
  finally show ?thesis by (simp add: n shp)
qed

lemma offset_inject:
  assumes "offset shp loc = Inr n" and "offset shp loc' = Inr n"
  shows "loc = loc'"
proof -
  from assms(1) obtain a b c i j k where
    shp: "shp = [a, b, c]" and loc: "loc = (i, j, k)" and b: "j < b" "k < c"
    and n: "n = (i * b + j) * c + k"
    unfolding offset_Inr by blast
  from assms(2) shp obtain i' j' k' where
    loc': "loc' = (i', j', k')" and b': "j' < b" "k' < c"
    and n': "n = (i' * b + j') * c + k'"
    unfolding offset_Inr by auto
  have "k = n mod c" using b n by simp
  moreover have "k' = n mod c" using b' n' by simp
  ultimately have k: "k = k'" by simp
  have "i * b + j = n div c" using b n by simp
  moreover have "i' * b + j' = n div c" using b' n' by simp
  ultimately have e: "i * b + j = i' * b + j'" by simp
  have "j = (i * b + j) mod b" using b by simp
  moreover have "j' = (i' * b + j') mod b" using b' by simp
  ultimately have j: "j = j'" using e by simp
  have "i = (i * b + j) div b" using b by simp
  moreover have "i' = (i' * b + j') div b" using b' by simp
  ultimately have "i = i'" using e by simp
  with j k show ?thesis by (simp add: loc loc')
qed


lemma offset_surj:
  assumes "n < a * b * c"
  shows "\<exists>loc. offset [a, b, c] loc = Inr n"
proof -
  from assms have c: "0 < c" by (cases c) auto
  from assms have b: "0 < b" by (cases b) auto
  define m where "m = n div c"
  have m: "m < a * b"
    unfolding m_def using assms c by (simp add: less_mult_imp_div_less)
  have "m div b < a" using m b by (simp add: less_mult_imp_div_less)
  moreover have "m mod b < b" using b by simp
  moreover have "n mod c < c" using c by simp
  moreover have "(m div b * b + m mod b) * c + n mod c = n" by (simp add: m_def)
  ultimately have "offset [a, b, c] (m div b, m mod b, n mod c) = Inr n" by simp
  then show ?thesis by blast
qed

subsection \<open>Arrays\<close>

lemma getitem_Inl: "getitem a loc = Inl e \<Longrightarrow> e = IndexError"
  by (auto simp: getitem_def split: sum.splits if_splits dest: offset_Inl)

lemma setitem_Inl: "setitem a loc v = Inl e \<Longrightarrow> e = IndexError"
  by (auto simp: setitem_def split: sum.splits if_splits dest: offset_Inl)

lemma setitem_Inr:
  "(setitem a loc v = Inr a') =
   (\<exists>n. offset (arr_shape a) loc = Inr n \<and> n < length (arr_data a) \<and>
        a' = a\<lparr> arr_data := (arr_data a)[n := v] \<rparr>)"
  unfolding setitem_def by (cases "offset (arr_shape a) loc") auto

lemma getitem_Inr:
  "(getitem a loc = Inr v) =
   (\<exists>n. offset (arr_shape a) loc = Inr n \<and> n < length (arr_data a) \<and> arr_data a ! n = v)"
  unfolding getitem_def by (cases "offset (arr_shape a) loc") auto

lemma setitem_shape:
  "setitem a loc v = Inr a' \<Longrightarrow>
   arr_shape a' = arr_shape a \<and> length (arr_data a') = length (arr_data a)"
  unfolding setitem_Inr by auto

lemma getitem_setitem:
  assumes "setitem a loc v = Inr a'"
  shows "getitem a' loc' = (if loc' = loc then Inr v else getitem a loc')"
proof -
  from assms obtain n where n: "offset (arr_shape a) loc = Inr n" "n < length (arr_data a)"
    and a': "a' = a\<lparr> arr_data := (arr_data a)[n := v] \<rparr>"
    unfolding setitem_Inr by blast
  show ?thesis
  proof (cases "loc' = loc")
    case True
    then show ?thesis using n by (simp add: getitem_def a')
  next
    case False
    show ?thesis
    proof (cases "offset (arr_shape a) loc'")
      case (Inl e)
      then show ?thesis using False by (simp add: getitem_def a')
    next
      case (Inr n')
      with n(1) False have "n' \<noteq> n" using offset_inject by blast
      then show ?thesis using False Inr by (simp add: getitem_def a')
    qed
  qed
qed

lemma setitem_succeeds:
  "getitem a loc = Inr b \<Longrightarrow> \<exists>a'. setitem a loc v = Inr a'"
  unfolding getitem_Inr setitem_Inr by blast

lemma getitem_zeros:
  "getitem (zeros shp) loc = (case offset shp loc of Inl e \<Rightarrow> Inl e | Inr n \<Rightarrow> Inr False)"
proof (cases "offset shp loc")
  case (Inl e)
  then show ?thesis by (simp add: getitem_def zeros_def)
next
  case (Inr n)
  then have "n < prod_list shp" by (rule offset_bound)
  with Inr show ?thesis by (simp add: getitem_def zeros_def)
qed

lemma array_and_Inr:
  "(array_and a b = Inr c) =
   (arr_shape a = arr_shape b \<and> length (arr_data a) = length (arr_data b) \<and>
    c = \<lparr> arr_shape = arr_shape a, arr_data = map2 (\<and>) (arr_data a) (arr_data b) \<rparr>)"
  unfolding array_and_def by auto

lemma array_ior_Inr:
  "(array_ior a b = Inr c) =
   (arr_shape a = arr_shape b \<and> length (arr_data a) = length (arr_data b) \<and>
    c = a\<lparr> arr_data := map2 (\<or>) (arr_data a) (arr_data b) \<rparr>)"
  unfolding array_ior_def by auto

lemma array_and_ior_Inl:
  "(array_and a b = Inl e) = (array_ior a b = Inl e)"
  by (simp add: array_and_def array_ior_def)

lemma array_any_and:
  assumes "array_and a b = Inr c"
  shows "array_any c = (\<exists>n < length (arr_data a). arr_data a ! n \<and> arr_data b ! n)"
proof -
  from assms have len: "length (arr_data b) = length (arr_data a)"
    and c: "arr_data c = map2 (\<and>) (arr_data a) (arr_data b)"
    by (simp_all add: array_and_Inr)
  have l: "length (arr_data c) = length (arr_data a)"
    by (simp add: c len)
  have n: "arr_data c ! n = (arr_data a ! n \<and> arr_data b ! n)" if "n < length (arr_data a)" for n
    using that by (simp add: c len)
  have "array_any c = (\<exists>n < length (arr_data c). arr_data c ! n)"
    by (simp add: array_any_def list_ex_length)
  also have "\<dots> = (\<exists>n < length (arr_data a). arr_data a ! n \<and> arr_data b ! n)"
    unfolding l using n by blast
  finally show ?thesis .
qed

lemma getitem_ior:
  assumes "array_ior a b = Inr c"
  shows "getitem c loc =
    (case getitem a loc of Inl e \<Rightarrow> Inl e
     | Inr x \<Rightarrow> (case getitem b loc of Inl e \<Rightarrow> Inl e | Inr y \<Rightarrow> Inr (x \<or> y)))"
proof -
  from assms have sh: "arr_shape b = arr_shape a" and len: "length (arr_data b) = length (arr_data a)"
    and c: "arr_shape c = arr_shape a" "arr_data c = map2 (\<or>) (arr_data a) (arr_data b)"
    by (auto simp: array_ior_Inr)
  show ?thesis
  proof (cases "offset (arr_shape a) loc")
    case (Inl e)
    then show ?thesis by (simp add: getitem_def c sh)
  next
    case (Inr n)
    then show ?thesis by (simp add: getitem_def c sh len)
  qed
qed

subsection \<open>What one iteration writes\<close>

lemma set_remove_bool_arrays:
  "set_remove fc x w = Inr (w', fc') \<Longrightarrow> bool_arrays w' = bool_arrays w"
  by (cases fc) (auto split: if_splits)

lemma unpack_record_bool_arrays:
  assumes "unpack_record args it (w, s) = (r, w', s')"
  shows "bool_arrays w' = bool_arrays w"
proof -
  obtain m loc nm where it: "it = (m, loc, nm)" by (cases it) auto
  show ?thesis
    using assms unfolding unpack_record_def it
    by (auto simp: Let_def write_record_def split: option.splits sum.splits prod.splits
             dest: set_remove_bool_arrays)
qed

text \<open>
  The three ways through one iteration: the body raises, the callback raises, or the
  loop goes on with the next record.
\<close>

lemma unpack_loop_Inr_cases:
  assumes "unpack_loop args (Inr it # items) (w, s) = (r, w', s')"
  obtains (record_fails) e where
      "unpack_record args it (w, s) = (Some e, w', s')" "r = Some e"
  | (callback_fails) e w1 where
      "unpack_record args it (w, s) = (None, w1, s')" "run_callback args it w1 = (Some e, w')"
      "r = Some e"
  | (continues) w1 s1 w2 where
      "unpack_record args it (w, s) = (None, w1, s1)" "run_callback args it w1 = (None, w2)"
      "unpack_loop args items (w2, s1) = (r, w', s')"
proof -
  obtain q w1 s1 where u: "unpack_record args it (w, s) = (q, w1, s1)"
    by (cases "unpack_record args it (w, s)") auto
  obtain q2 w2 where c: "run_callback args it w1 = (q2, w2)"
    by (cases "run_callback args it w1") auto
  show thesis
  proof (cases q)
    case (Some e)
    with assms u show thesis by (intro record_fails[of e]) simp_all
  next
    case None
    show thesis
    proof (cases q2)
      case (Some e)
      with assms u c None show thesis by (intro callback_fails[of w1 e]) simp_all
    next
      case n2: None
      with assms u c None show thesis by (intro continues[of w1 s1 w2]) simp_all
    qed
  qed
qed

lemma unpack_loop_bool_arrays:
  assumes cb: "\<And>it v. P (bool_arrays v c) \<Longrightarrow> P (bool_arrays (snd (run_callback args it v)) c)"
    and "P (bool_arrays w c)"
    and "unpack_loop args items (w, s) = (r, w', s')"
  shows "P (bool_arrays w' c)"
  using assms(2,3)
proof (induction items arbitrary: w s)
  case Nil
  then show ?case by simp
next
  case (Cons x items)
  show ?case
  proof (cases x)
    case (Inl e)
    with Cons.prems show ?thesis by simp
  next
    case (Inr it)
    from Cons.prems(2)[unfolded Inr] show ?thesis
    proof (cases rule: unpack_loop_Inr_cases)
      case (record_fails e)
      from unpack_record_bool_arrays[OF record_fails(1)] Cons.prems(1) show ?thesis by simp
    next
      case (callback_fails e w1)
      from unpack_record_bool_arrays[OF callback_fails(1)] Cons.prems(1)
      have "P (bool_arrays w1 c)" by simp
      from cb[OF this, of it] callback_fails(2) show ?thesis by simp
    next
      case (continues w1 s1 w2)
      from unpack_record_bool_arrays[OF continues(1)] Cons.prems(1)
      have "P (bool_arrays w1 c)" by simp
      from cb[OF this, of it] continues(2) have "P (bool_arrays w2 c)" by simp
      from Cons.IH[OF this continues(3)] show ?thesis .
    qed
  qed
qed

lemma finish_failure: "finish args w s = (Some e, w') \<Longrightarrow> w' = w"
  by (auto simp: finish_def split: if_splits option.splits sum.splits)

lemma unpack_grib_failure_invariant:
  assumes cb: "\<And>it v. P (bool_arrays v c) \<Longrightarrow> P (bool_arrays (snd (run_callback args it v)) c)"
    and "P (bool_arrays w c)"
    and "unpack_grib args w = (Some e, w')"
  shows "P (bool_arrays w' c)"
proof -
  obtain r v s where l: "unpack_loop args (grib_records (grib args)) (w, initial_locals args w) = (r, v, s)"
    by (cases "unpack_loop args (grib_records (grib args)) (w, initial_locals args w)") auto
  from unpack_loop_bool_arrays[of P c args, OF cb assms(2) l]
  have v: "P (bool_arrays v c)" by simp
  show ?thesis
  proof (cases r)
    case None
    with assms(3) l have "finish args v s = (Some e, w')" by (simp add: unpack_grib_def)
    then have "w' = v" by (rule finish_failure)
    with v show ?thesis by simp
  next
    case (Some e')
    with assms(3) l have "w' = v" by (simp add: unpack_grib_def)
    with v show ?thesis by simp
  qed
qed





subsection \<open>Checklists and locations\<close>

lemma checklist_length: "length (arr_data Dataset_checklist) = 9165"
  by (simp add: Dataset_checklist_def zeros_def shape_def)

lemma is_checklist_Dataset_checklist: "is_checklist Dataset_checklist"
  by (simp add: is_checklist_def)

lemma in_range_iff: "in_range (i, j, k) = (i < 65 \<and> j < 47 \<and> k < 3)"
  by (simp add: in_range_def shape_def)

lemma in_range_offset: "in_range loc = (\<exists>n. offset [65, 47, 3] loc = Inr n)"
  by (cases "offset [65, 47, 3] loc") (simp_all add: in_range_def shape_def)

lemma getitem_checklist:
  assumes "is_checklist a"
  shows "in_range loc \<Longrightarrow> \<exists>b. getitem a loc = Inr b"
    and "\<not> in_range loc \<Longrightarrow> getitem a loc = Inl IndexError"
proof -
  from assms have sh: "arr_shape a = [65, 47, 3]" and len: "length (arr_data a) = 9165"
    by (simp_all add: is_checklist_def checklist_shape checklist_length)
  show "\<exists>b. getitem a loc = Inr b" if "in_range loc"
  proof -
    from that obtain n where n: "offset [65, 47, 3] loc = Inr n" by (auto simp: in_range_offset)
    from offset_bound[OF n] have "n < 9165" by simp
    with n show ?thesis by (simp add: getitem_def sh len)
  qed
  show "getitem a loc = Inl IndexError" if "\<not> in_range loc"
  proof (cases "offset [65, 47, 3] loc")
    case (Inl e)
    with offset_Inl[OF this] show ?thesis by (simp add: getitem_def sh)
  next
    case (Inr n)
    with that show ?thesis by (simp add: in_range_offset)
  qed
qed

lemma getitem_Dataset_checklist:
  "getitem Dataset_checklist loc = (if in_range loc then Inr False else Inl IndexError)"
proof (cases "offset [65, 47, 3] loc")
  case (Inl e)
  with offset_Inl[OF this] show ?thesis
    by (simp add: Dataset_checklist_def getitem_zeros shape_def in_range_def)
next
  case (Inr n)
  then show ?thesis
    by (simp add: Dataset_checklist_def getitem_zeros shape_def in_range_def)
qed

lemma setitem_is_checklist:
  "setitem a loc v = Inr a' \<Longrightarrow> is_checklist a' = is_checklist a"
  by (drule setitem_shape) (simp add: is_checklist_def)

lemma locate_in_range:
  assumes "locate nm = Inr loc"
  shows "in_range loc"
proof -
  obtain h p v where nm: "nm = (h, p, v)" by (cases nm) auto
  from assms obtain i j k where loc: "loc = (i, j, k)"
    and i: "index (hour axes) h = Inr i"
    and j: "index (pressure axes) p = Inr j"
    and k: "index (variable axes) v = Inr k"
    by (auto simp: locate_def nm split: sum.splits)
  from index_Inr[OF i] have "i < 65" by (simp add: hour_axis)
  moreover from index_Inr[OF j] have "j < 47" by (simp add: pressure_axis)
  moreover from index_Inr[OF k] have "k < 3" by (simp add: variable_axis)
  ultimately show ?thesis by (simp add: loc in_range_iff)
qed

lemma grib_record_Inr:
  assumes "grib_record m = Some (Inr it)"
  shows "item_record it = m \<and> locate (item_name it) = Inr (item_location it) \<and>
         fst (item_name it) = forecastTime m"
  using assms
  by (auto simp: grib_record_def item_record_def item_name_def item_location_def Let_def
           split: if_splits option.splits sum.splits)

lemma in_set_map_filter:
  "(y \<in> set (List.map_filter f xs)) = (\<exists>x \<in> set xs. f x = Some y)"
  by (induction xs) (auto split: option.splits)

lemma grib_records_Inr:
  assumes "Inr it \<in> set (grib_records msgs)"
  shows "locate (item_name it) = Inr (item_location it) \<and>
         fst (item_name it) = forecastTime (item_record it)"
proof -
  from assms obtain m where "grib_record m = Some (Inr it)"
    by (auto simp: grib_records_def in_set_map_filter)
  from grib_record_Inr[OF this] show ?thesis by simp
qed

subsection \<open>One iteration of the loop\<close>

lemma write_record_bool_arrays: "bool_arrays (write_record args it w) = bool_arrays w"
  by (cases it) (simp add: write_record_def Let_def split: option.splits)

lemma write_record_name_sets: "name_sets (write_record args it w) = name_sets w"
  by (cases it) (simp add: write_record_def Let_def split: option.splits)

lemma unpack_record_repeated:
  assumes "getitem (checklist_temp s) loc = Inr True"
  shows "unpack_record args (r, loc, nm) (w, s) = (Some (RepeatedInFile nm), w, s)"
  using assms by (simp add: unpack_record_def check_record_def)

lemma unpack_record_already:
  assumes "getitem (checklist_temp s) loc = Inr False"
    and "checklist args = Some c"
    and "getitem (bool_arrays w c) loc = Inr True"
  shows "unpack_record args (r, loc, nm) (w, s) = (Some (AlreadyUnpacked nm), w, s)"
  using assms by (simp add: unpack_record_def check_record_def)

lemma unpack_record_hour:
  assumes "getitem (checklist_temp s) loc = Inr False"
    and "checklist args = Some c"
    and "getitem (bool_arrays w c) loc = Inr False"
    and "assert_hour args = Some h" and "forecastTime r \<noteq> h"
  shows "unpack_record args (r, loc, nm) (w, s) = (Some IncorrectForecastTime, w, s)"
  using assms by (simp add: unpack_record_def check_record_def)

lemma check_record_ok:
  assumes "getitem temp loc = Inr False"
    and "chk = Some c" and "getitem (bool_arrays w c) loc = Inr False"
    and "case hw of None \<Rightarrow> True | Some h \<Rightarrow> forecastTime r = h"
    and "case fc of None \<Rightarrow> True | Some ref \<Rightarrow> nm \<in> deref w ref"
  shows "check_record w r loc nm temp chk hw fc = None"
  using assms by (auto simp: check_record_def split: option.splits)

lemma unpack_record_ok:
  assumes temp: "getitem (checklist_temp s) loc = Inr False"
    and chk: "checklist args = Some c" "getitem (bool_arrays w c) loc = Inr False"
    and hw: "case assert_hour args of None \<Rightarrow> True | Some h \<Rightarrow> forecastTime r = h"
    and fc: "file_checklist_local s = None \<or>
             (\<exists>M. file_checklist_local s = Some (Copied M) \<and> nm \<in> M)"
    and ax: "checked_axes s \<or> check_axes r = None"
  shows "\<exists>t. setitem (checklist_temp s) loc True = Inr t \<and>
           unpack_record args (r, loc, nm) (w, s) =
             (None, write_record args (r, loc, nm) w,
              s\<lparr> checked_axes := True, checklist_temp := t,
                 file_checklist_local :=
                   (case file_checklist_local s of
                      None \<Rightarrow> None
                    | Some ref \<Rightarrow> Some (Copied (deref w ref - {nm}))) \<rparr>)"
proof -
  from setitem_succeeds[OF temp] obtain t where t: "setitem (checklist_temp s) loc True = Inr t"
    by blast
  have cr: "check_record w r loc nm (checklist_temp s) (checklist args) (assert_hour args)
              (file_checklist_local s) = None"
    using temp chk hw fc by (intro check_record_ok) auto
  have ca: "(if checked_axes s then None else check_axes r) = None"
    using ax by auto
  from fc show ?thesis
  proof
    assume n: "file_checklist_local s = None"
    note cr' = cr[unfolded n]
    show ?thesis
      using t by (simp add: unpack_record_def cr' ca n Let_def)
  next
    assume "\<exists>M. file_checklist_local s = Some (Copied M) \<and> nm \<in> M"
    then obtain M where M: "file_checklist_local s = Some (Copied M)" "nm \<in> M" by blast
    note cr' = cr[unfolded M(1)]
    show ?thesis
      using t by (simp add: unpack_record_def cr' ca M Let_def)
  qed
qed

subsection \<open>The loop on a well-formed stream\<close>

lemma marks_setitem:
  assumes "marks t D" and "setitem t loc True = Inr t'"
  shows "marks t' (insert loc D)"
proof -
  from assms have "is_checklist t'" by (simp add: marks_def setitem_is_checklist)
  moreover have "{l. getitem t' l = Inr True} = insert loc {l. getitem t l = Inr True}"
    by (auto simp: getitem_setitem[OF assms(2)])
  ultimately show ?thesis using assms(1) by (simp add: marks_def)
qed

lemma marks_unmarked:
  assumes "marks t D" and "in_range loc" and "loc \<notin> D"
  shows "getitem t loc = Inr False"
proof -
  from assms(1) have c: "is_checklist t" and D: "{l. getitem t l = Inr True} = D"
    by (simp_all add: marks_def)
  from getitem_checklist(1)[OF c assms(2)] obtain b where b: "getitem t loc = Inr b" by blast
  with D assms(3) have "\<not> b" by auto
  with b show ?thesis by simp
qed

lemma marks_marked: "marks t D \<Longrightarrow> loc \<in> D \<Longrightarrow> getitem t loc = Inr True"
  by (auto simp: marks_def)

lemma marks_Dataset_checklist: "marks Dataset_checklist {}"
  by (simp add: marks_def is_checklist_Dataset_checklist getitem_Dataset_checklist)

lemma free_for_False: "free_for F a \<Longrightarrow> loc \<in> F \<Longrightarrow> getitem a loc = Inr False"
  by (simp add: free_for_def)

lemma unpack_loop_ok:
  assumes "marks (checklist_temp s) D"
    and "\<forall>it \<in> set its. in_range (item_location it)"
    and "distinct (map item_location its)"
    and "set (map item_location its) \<inter> D = {}"
    and "distinct (map item_name its)"
    and c: "checklist args = Some c"
    and "D \<union> set (map item_location its) \<subseteq> F"
    and "free_for F (bool_arrays w c)"
    and cb: "\<And>it v. free_for F (bool_arrays v c) \<Longrightarrow>
               free_for F (bool_arrays (snd (run_callback args it v)) c)"
    and ret: "\<And>it v. fst (run_callback args it v) = None"
    and "\<forall>it \<in> set its. case assert_hour args of None \<Rightarrow> True
                              | Some h \<Rightarrow> forecastTime (item_record it) = h"
    and "file_checklist_local s = None \<or>
         (\<exists>M. file_checklist_local s = Some (Copied M) \<and> set (map item_name its) \<subseteq> M)"
    and "checked_axes s \<or> its = [] \<or> check_axes (item_record (hd its)) = None"
  shows "\<exists>v s'. unpack_loop args (map Inr its) (w, s) = (None, v, s') \<and>
           marks (checklist_temp s') (D \<union> set (map item_location its)) \<and>
           free_for F (bool_arrays v c) \<and>
           file_checklist_local s' =
             (case file_checklist_local s of
                None \<Rightarrow> None
              | Some ref \<Rightarrow> Some (Copied (deref w ref - set (map item_name its))))"
  using assms(1-5,7,8,11-13)
proof (induction its arbitrary: w s D)
  case Nil
  then show ?case by (auto split: option.splits)
next
  case (Cons it its)
  obtain r loc nm where it: "it = (r, loc, nm)" by (cases it) auto
  have acc: "item_record it = r" "item_location it = loc" "item_name it = nm"
    by (simp_all add: it item_record_def item_location_def item_name_def)
  have loc: "in_range loc" "loc \<notin> D" "loc \<in> F"
    using Cons.prems(2,4,6) acc by auto
  have temp: "getitem (checklist_temp s) loc = Inr False"
    using marks_unmarked[OF Cons.prems(1) loc(1,2)] .
  have shared: "getitem (bool_arrays w c) loc = Inr False"
    using free_for_False[OF Cons.prems(7) loc(3)] .
  have hw: "case assert_hour args of None \<Rightarrow> True | Some h \<Rightarrow> forecastTime r = h"
    using Cons.prems(8) acc by (auto split: option.splits)
  have fc: "file_checklist_local s = None \<or>
            (\<exists>M. file_checklist_local s = Some (Copied M) \<and> nm \<in> M)"
    using Cons.prems(9) acc by auto
  have ax: "checked_axes s \<or> check_axes r = None"
    using Cons.prems(10) acc by simp
  from unpack_record_ok[OF temp c shared hw fc ax]
  obtain t where t: "setitem (checklist_temp s) loc True = Inr t"
    and u: "unpack_record args (r, loc, nm) (w, s) =
             (None, write_record args (r, loc, nm) w,
              s\<lparr> checked_axes := True, checklist_temp := t,
                 file_checklist_local :=
                   (case file_checklist_local s of
                      None \<Rightarrow> None
                    | Some ref \<Rightarrow> Some (Copied (deref w ref - {nm}))) \<rparr>)"
    by blast
  define w1 where "w1 = snd (run_callback args (r, loc, nm) (write_record args (r, loc, nm) w))"
  have rc: "run_callback args (r, loc, nm) (write_record args (r, loc, nm) w) = (None, w1)"
    using ret[of "(r, loc, nm)" "write_record args (r, loc, nm) w"]
    by (simp add: w1_def prod_eq_iff)
  define s1 where "s1 = s\<lparr> checked_axes := True, checklist_temp := t,
                 file_checklist_local :=
                   (case file_checklist_local s of
                      None \<Rightarrow> None
                    | Some ref \<Rightarrow> Some (Copied (deref w ref - {nm}))) \<rparr>"
  have step: "unpack_loop args (map Inr (it # its)) (w, s) = unpack_loop args (map Inr its) (w1, s1)"
    by (simp add: it u rc s1_def)
  have p1: "marks (checklist_temp s1) (insert loc D)"
    using marks_setitem[OF Cons.prems(1) t] by (simp add: s1_def)
  have p2: "\<forall>it \<in> set its. in_range (item_location it)"
    using Cons.prems(2) by simp
  have p3: "distinct (map item_location its)"
    using Cons.prems(3) by simp
  have p4: "set (map item_location its) \<inter> insert loc D = {}"
    using Cons.prems(3,4) acc by auto
  have p5: "distinct (map item_name its)"
    using Cons.prems(5) by simp
  have p6: "insert loc D \<union> set (map item_location its) \<subseteq> F"
    using Cons.prems(6) acc by auto
  have p7: "free_for F (bool_arrays w1 c)"
    unfolding w1_def using Cons.prems(7) by (intro cb) (simp add: write_record_bool_arrays)
  have p8: "\<forall>it \<in> set its. case assert_hour args of None \<Rightarrow> True
                              | Some h \<Rightarrow> forecastTime (item_record it) = h"
    using Cons.prems(8) by simp
  have p9: "file_checklist_local s1 = None \<or>
         (\<exists>M. file_checklist_local s1 = Some (Copied M) \<and> set (map item_name its) \<subseteq> M)"
  proof (cases "file_checklist_local s")
    case None
    then show ?thesis by (simp add: s1_def)
  next
    case (Some ref)
    with Cons.prems(9) obtain M where M: "ref = Copied M" "set (map item_name (it # its)) \<subseteq> M"
      by auto
    have "nm \<notin> set (map item_name its)" using Cons.prems(5) acc by simp
    with M(2) have "set (map item_name its) \<subseteq> M - {nm}" by auto
    then show ?thesis by (simp add: s1_def Some M(1))
  qed
  have p10: "checked_axes s1 \<or> its = [] \<or> check_axes (item_record (hd its)) = None"
    by (simp add: s1_def)
  from Cons.IH[OF p1 p2 p3 p4 p5 p6 p7 p8 p9 p10]
  obtain v s' where l: "unpack_loop args (map Inr its) (w1, s1) = (None, v, s')"
    and m: "marks (checklist_temp s') (insert loc D \<union> set (map item_location its))"
    and f: "free_for F (bool_arrays v c)"
    and fc': "file_checklist_local s' =
             (case file_checklist_local s1 of
                None \<Rightarrow> None
              | Some ref \<Rightarrow> Some (Copied (deref w1 ref - set (map item_name its))))"
    by blast
  have "marks (checklist_temp s') (D \<union> set (map item_location (it # its)))"
    using m acc by simp
  moreover have "file_checklist_local s' =
             (case file_checklist_local s of
                None \<Rightarrow> None
              | Some ref \<Rightarrow> Some (Copied (deref w ref - set (map item_name (it # its)))))"
  proof (cases "file_checklist_local s")
    case None
    then show ?thesis using fc' by (simp add: s1_def)
  next
    case (Some ref)
    have "deref w ref - {nm} - set (map item_name its) =
          deref w ref - set (map item_name (it # its))"
      using acc by auto
    then show ?thesis using fc' by (simp add: s1_def Some)
  qed
  ultimately show ?case using step l f by simp
qed

subsection \<open>The statements after the loop\<close>

lemma finish_None:
  assumes "finish args w s = (None, w')"
  shows "\<exists>c m ref both. checklist args = Some c \<and> file_checklist_local s = Some ref \<and>
           deref w ref = {} \<and>
           array_and (bool_arrays w c) (checklist_temp s) = Inr both \<and> \<not> array_any both \<and>
           array_ior (bool_arrays w c) (checklist_temp s) = Inr m \<and>
           w' = w\<lparr> bool_arrays := (bool_arrays w)(c := m) \<rparr>"
  using assms
  by (simp add: finish_def split: if_splits option.splits sum.splits)

lemma is_checklist_unfold:
  "is_checklist a = (arr_shape a = [65, 47, 3] \<and> length (arr_data a) = 9165)"
  by (simp add: is_checklist_def checklist_shape checklist_length)

lemma no_overlap:
  assumes a: "is_checklist a" and t: "marks t D" and free: "free_for D a"
    and both: "array_and a t = Inr both"
  shows "\<not> array_any both"
proof
  assume "array_any both"
  then obtain n where n: "n < length (arr_data a)" "arr_data a ! n" "arr_data t ! n"
    unfolding array_any_and[OF both] by blast
  from t have ct: "is_checklist t" by (simp add: marks_def)
  from n(1) a have n9: "n < 9165" by (simp add: is_checklist_unfold)
  from n9 have "n < 65 * 47 * 3" by simp
  from offset_surj[OF this] obtain loc where loc: "offset [65, 47, 3] loc = Inr n" by blast
  have "getitem t loc = Inr True"
    using ct loc n9 n(3) by (simp add: getitem_def is_checklist_unfold)
  with t have "loc \<in> D" by (auto simp: marks_def)
  with free have "getitem a loc = Inr False" by (simp add: free_for_def)
  moreover have "getitem a loc = Inr True"
    using a loc n9 n(2) by (simp add: getitem_def is_checklist_unfold)
  ultimately show False by simp
qed

lemma getitem_merged:
  assumes a: "is_checklist a" and t: "marks t D" and free: "free_for D a"
    and m: "array_ior a t = Inr m"
  shows "getitem m loc = (if loc \<in> D then Inr True else getitem a loc)"
proof (cases "loc \<in> D")
  case True
  with t have "getitem t loc = Inr True" by (rule marks_marked)
  moreover from free True have "getitem a loc = Inr False" by (simp add: free_for_def)
  ultimately show ?thesis using True by (simp add: getitem_ior[OF m])
next
  case False
  from t have ct: "is_checklist t" by (simp add: marks_def)
  show ?thesis
  proof (cases "in_range loc")
    case True
    from marks_unmarked[OF t True False] have "getitem t loc = Inr False" .
    moreover from getitem_checklist(1)[OF a True] obtain b where "getitem a loc = Inr b" by blast
    ultimately show ?thesis using False by (simp add: getitem_ior[OF m])
  next
    case nr: False
    from getitem_checklist(2)[OF a nr] show ?thesis using False by (simp add: getitem_ior[OF m])
  qed
qed

lemma finish_commits:
  assumes fc: "file_checklist_local s = Some ref" "deref w ref = {}"
    and c: "checklist args = Some c"
    and t: "marks (checklist_temp s) D"
    and free: "free_for D (bool_arrays w c)"
  shows "\<exists>m. finish args w s = (None, w\<lparr> bool_arrays := (bool_arrays w)(c := m) \<rparr>) \<and>
           is_checklist m \<and>
           (\<forall>loc. getitem m loc = (if loc \<in> D then Inr True else getitem (bool_arrays w c) loc))"
proof -
  from free have a: "is_checklist (bool_arrays w c)" by (simp add: free_for_def)
  from t have ct: "is_checklist (checklist_temp s)" by (simp add: marks_def)
  from a ct obtain both where both: "array_and (bool_arrays w c) (checklist_temp s) = Inr both"
    by (simp add: array_and_def is_checklist_unfold)
  from a ct obtain m where m: "array_ior (bool_arrays w c) (checklist_temp s) = Inr m"
    by (simp add: array_ior_def is_checklist_unfold)
  have na: "\<not> array_any both" using no_overlap[OF a t free both] .
  have "finish args w s = (None, w\<lparr> bool_arrays := (bool_arrays w)(c := m) \<rparr>)"
    by (simp add: finish_def fc c both m na)
  moreover have "is_checklist m"
    using m a by (auto simp: array_ior_Inr is_checklist_unfold)
  moreover have "\<forall>loc. getitem m loc = (if loc \<in> D then Inr True else getitem (bool_arrays w c) loc)"
    using getitem_merged[OF a t free m] by blast
  ultimately show ?thesis by blast
qed

subsection \<open>A well-formed file\<close>

lemma grib_records_items:
  assumes "grib_records msgs = map Inr its" and "it \<in> set its"
  shows "locate (item_name it) = Inr (item_location it)"
    and "fst (item_name it) = forecastTime (item_record it)"
    and "in_range (item_location it)"
proof -
  from assms have "Inr it \<in> set (grib_records msgs)" by auto
  from grib_records_Inr[OF this]
  show l: "locate (item_name it) = Inr (item_location it)"
    and "fst (item_name it) = forecastTime (item_record it)" by simp_all
  from locate_in_range[OF l] show "in_range (item_location it)" .
qed

lemma distinct_names:
  assumes "grib_records msgs = map Inr its" and "distinct (map item_location its)"
  shows "distinct (map item_name its)"
proof -
  from assms(2) have d: "distinct its" and inj: "inj_on item_location (set its)"
    by (simp_all add: distinct_map)
  have "inj_on item_name (set its)"
  proof (rule inj_onI)
    fix x y assume x: "x \<in> set its" and y: "y \<in> set its" and e: "item_name x = item_name y"
    from grib_records_items(1)[OF assms(1) x] grib_records_items(1)[OF assms(1) y] e
    have "item_location x = item_location y" by simp
    with inj x y show "x = y" by (auto dest: inj_onD)
  qed
  with d show ?thesis by (simp add: distinct_map)
qed

lemma initial_locals_simps:
  "checklist_temp (initial_locals args w) = Dataset_checklist"
  "checked_axes (initial_locals args w) = False"
  "file_checklist_local (initial_locals args w) =
     (case file_checklist args of None \<Rightarrow> None | Some a \<Rightarrow> Some (Copied (name_sets w a)))"
  by (simp_all add: initial_locals_def set_copy_def split: option.splits)

lemma before_commit_bool_arrays:
  assumes "\<And>it v. bool_arrays (snd (run_callback args it v)) c = bool_arrays v c"
  shows "bool_arrays (before_commit args w) c = bool_arrays w c"
proof -
  obtain r v s where l: "unpack_loop args (grib_records (grib args)) (w, initial_locals args w) = (r, v, s)"
    by (cases "unpack_loop args (grib_records (grib args)) (w, initial_locals args w)") auto
  from unpack_loop_bool_arrays[of "\<lambda>a. a = bool_arrays w c" c args w _ _ r v s] assms l
  have "bool_arrays v c = bool_arrays w c" by simp
  with l show ?thesis by (simp add: before_commit_def)
qed

lemma wellformed_unpack:
  assumes recs: "grib_records (grib args) = map Inr its"
    and dist: "distinct (map item_location its)"
    and manifest: "file_checklist args = Some m" "name_sets w m = set (map item_name its)"
    and chk: "checklist args = Some c"
             "free_for (set (map item_location its)) (bool_arrays w c)"
    and others: "\<And>it v. free_for (set (map item_location its)) (bool_arrays v c) \<Longrightarrow>
                   free_for (set (map item_location its)) (bool_arrays (snd (run_callback args it v)) c)"
    and returns: "\<And>it v. fst (run_callback args it v) = None"
    and hours: "\<forall>it \<in> set its. assert_hour args = None \<or>
                   assert_hour args = Some (forecastTime (item_record it))"
    and axes_ok: "its = [] \<or> check_axes (item_record (hd its)) = None"
  shows "fst (unpack_grib args w) = None \<and>
         free_for (set (map item_location its)) (bool_arrays (before_commit args w) c) \<and>
         (\<forall>loc. getitem (bool_arrays (snd (unpack_grib args w)) c) loc =
                (if loc \<in> set (map item_location its) then Inr True
                 else getitem (bool_arrays (before_commit args w) c) loc)) \<and>
         is_checklist (bool_arrays (snd (unpack_grib args w)) c) \<and>
         ((\<forall>it v. bool_arrays (snd (run_callback args it v)) c = bool_arrays v c) \<longrightarrow>
            bool_arrays (before_commit args w) c = bool_arrays w c)"
proof -
  let ?S = "set (map item_location its)"
  let ?s0 = "initial_locals args w"
  have p1: "marks (checklist_temp ?s0) {}"
    by (simp add: initial_locals_simps marks_Dataset_checklist)
  have p2: "\<forall>it \<in> set its. in_range (item_location it)"
    using grib_records_items(3)[OF recs] by blast
  have p4: "?S \<inter> {} = {}" by simp
  have p5: "distinct (map item_name its)" using distinct_names[OF recs dist] .
  have p6: "{} \<union> ?S \<subseteq> ?S" by simp
  have p8: "\<forall>it \<in> set its. case assert_hour args of None \<Rightarrow> True
                              | Some h \<Rightarrow> forecastTime (item_record it) = h"
    using hours by (auto split: option.splits)
  have p9: "file_checklist_local ?s0 = None \<or>
         (\<exists>M. file_checklist_local ?s0 = Some (Copied M) \<and> set (map item_name its) \<subseteq> M)"
    by (simp add: initial_locals_simps manifest)
  have p10: "checked_axes ?s0 \<or> its = [] \<or> check_axes (item_record (hd its)) = None"
    using axes_ok by simp
  from unpack_loop_ok[OF p1 p2 dist p4 p5 chk(1) p6 chk(2) others returns p8 p9 p10]
  obtain v s' where l: "unpack_loop args (map Inr its) (w, ?s0) = (None, v, s')"
    and mk: "marks (checklist_temp s') ({} \<union> ?S)"
    and fr: "free_for ?S (bool_arrays v c)"
    and fc: "file_checklist_local s' =
             (case file_checklist_local ?s0 of
                None \<Rightarrow> None
              | Some ref \<Rightarrow> Some (Copied (deref w ref - set (map item_name its))))"
    by blast
  have bc: "before_commit args w = v"
    by (simp add: before_commit_def recs l)
  have fc': "file_checklist_local s' = Some (Copied {})"
    using fc by (simp add: initial_locals_simps manifest)
  from mk have mk': "marks (checklist_temp s') ?S" by simp
  from finish_commits[OF fc' _ chk(1) mk' fr]
  obtain mg where f: "finish args v s' = (None, v\<lparr> bool_arrays := (bool_arrays v)(c := mg) \<rparr>)"
    and cm: "is_checklist mg"
    and gm: "\<forall>loc. getitem mg loc = (if loc \<in> ?S then Inr True else getitem (bool_arrays v c) loc)"
    by auto
  have u: "unpack_grib args w = (None, v\<lparr> bool_arrays := (bool_arrays v)(c := mg) \<rparr>)"
    by (simp add: unpack_grib_def recs l f)
  have c1: "fst (unpack_grib args w) = None" by (simp add: u)
  have c2: "free_for ?S (bool_arrays (before_commit args w) c)" using fr by (simp add: bc)
  have c3: "\<forall>loc. getitem (bool_arrays (snd (unpack_grib args w)) c) loc =
                (if loc \<in> ?S then Inr True
                 else getitem (bool_arrays (before_commit args w) c) loc)"
    using gm by (simp add: u bc)
  have c4: "is_checklist (bool_arrays (snd (unpack_grib args w)) c)" using cm by (simp add: u)
  have c5: "(\<forall>it v. bool_arrays (snd (run_callback args it v)) c = bool_arrays v c) \<longrightarrow>
            bool_arrays (before_commit args w) c = bool_arrays w c"
  proof
    assume a: "\<forall>it v. bool_arrays (snd (run_callback args it v)) c = bool_arrays v c"
    show "bool_arrays (before_commit args w) c = bool_arrays w c"
      by (rule before_commit_bool_arrays) (rule a[rule_format])
  qed
  from c1 c2 c3 c4 c5 show ?thesis by blast
qed

subsection \<open>The example inputs\<close>

lemma locate_height: "locate (0, 1000, ''height'') = Inr (0, 0, 0)"
  by (simp add: locate_def hour_axis pressure_axis variable_axis index_def upt_conv_Cons)

lemma grib_record_height: "grib_record height_record = Some (Inr height_item)"
  by (simp add: grib_record_def height_record_def height_item_def example_record_def
      grib_name_to_variable_def locate_height)

lemma grib_records_height: "grib_records [height_record] = map Inr [height_item]"
  by (simp add: grib_records_def grib_record_height)

lemma height_item_simps:
  "item_record height_item = height_record"
  "item_location height_item = (0, 0, 0)"
  "item_name height_item = (0, 1000, ''height'')"
  by (simp_all add: item_record_def item_location_def item_name_def height_item_def)

lemma height_record_simps:
  "forecastTime height_record = 0"
  "check_axes height_record = None"
  by (simp_all add: height_record_def example_record_def check_axes_def)

lemma example_call_simps:
  "grib (example_call msgs) = msgs"
  "dataset (example_call msgs) = Some 0"
  "checklist (example_call msgs) = Some 0"
  "gribmirror (example_call msgs) = Some 0"
  "assert_hour (example_call msgs) = None"
  "file_checklist (example_call msgs) = Some 0"
  "callback (example_call msgs) = None"
  by (simp_all add: example_call_def)

lemma example_world_simps:
  "bool_arrays (example_world M) a = Dataset_checklist"
  "name_sets (example_world M) a = M"
  "float_arrays (example_world M) a loc = 0"
  "byte_sinks (example_world M) a = []"
  by (simp_all add: example_world_def)

lemma free_for_Dataset_checklist: "free_for {(0, 0, 0)} Dataset_checklist"
  by (simp add: free_for_def is_checklist_Dataset_checklist getitem_Dataset_checklist in_range_iff)

text \<open>
  Claim C3, amended. Take a file whose records all resolve to slots, pairwise distinct;
  a manifest that holds exactly the names of these records; a shared checklist in
  which none of these slots is true, and which no interleaved ingestion (running while
  the task is suspended in its callback) makes true in any of them; and a callback
  that returns. If, in addition, every record has the expected hour whenever one is
  given, and the first record carries the dataset's latitudes and longitudes, then
  \<^verbatim>\<open>unpack_grib\<close> returns normally, and on return each bit of the shared checklist is
  true if it is one of the file's slots and otherwise has the value it had when the
  loop ended; the file's slots were all false then. When the callback does not write
  the checklist, the value when the loop ended is the value before the call.
\<close>

theorem wellformed_file_is_committed:
  assumes recs: "grib_records (grib args) = map Inr its"
    and dist: "distinct (map item_location its)"
    and manifest: "file_checklist args = Some m" "name_sets w m = set (map item_name its)"
    and chk: "checklist args = Some c"
             "free_for (set (map item_location its)) (bool_arrays w c)"
    and others: "\<And>it v. free_for (set (map item_location its)) (bool_arrays v c) \<Longrightarrow>
                   free_for (set (map item_location its)) (bool_arrays (snd (run_callback args it v)) c)"
    and returns: "\<And>it v. fst (run_callback args it v) = None"
    and hours: "\<forall>it \<in> set its. assert_hour args = None \<or>
                   assert_hour args = Some (forecastTime (item_record it))"
    and axes_ok: "its = [] \<or> check_axes (item_record (hd its)) = None"
  shows "fst (unpack_grib args w) = None \<and>
         free_for (set (map item_location its)) (bool_arrays (before_commit args w) c) \<and>
         (\<forall>loc. getitem (bool_arrays (snd (unpack_grib args w)) c) loc =
                (if loc \<in> set (map item_location its) then Inr True
                 else getitem (bool_arrays (before_commit args w) c) loc)) \<and>
         is_checklist (bool_arrays (snd (unpack_grib args w)) c) \<and>
         ((\<forall>it v. bool_arrays (snd (run_callback args it v)) c = bool_arrays v c) \<longrightarrow>
            bool_arrays (before_commit args w) c = bool_arrays w c)"
  by (rule wellformed_unpack[OF assms])

theorem wellformed_file_is_committed_witness:
  "fst (unpack_grib (example_call [height_record]) (example_world {(0, 1000, ''height'')})) = None \<and>
   getitem (bool_arrays (snd (unpack_grib (example_call [height_record])
              (example_world {(0, 1000, ''height'')}))) 0) (0, 0, 0) = Inr True \<and>
   getitem (bool_arrays (snd (unpack_grib (example_call [height_record])
              (example_world {(0, 1000, ''height'')}))) 0) (0, 0, 1) = Inr False"
proof -
  let ?A = "example_call [height_record]"
  let ?W = "example_world {(0, 1000, ''height'')}"
  have recs: "grib_records (grib ?A) = map Inr [height_item]"
    by (simp add: example_call_simps grib_records_height)
  have dist: "distinct (map item_location [height_item])" by simp
  have m1: "file_checklist ?A = Some 0" by (simp add: example_call_simps)
  have m2: "name_sets ?W 0 = set (map item_name [height_item])"
    by (simp add: example_world_simps height_item_simps)
  have c1: "checklist ?A = Some 0" by (simp add: example_call_simps)
  have c2: "free_for (set (map item_location [height_item])) (bool_arrays ?W 0)"
    by (simp add: example_world_simps height_item_simps free_for_Dataset_checklist)
  have cb: "\<And>it v. bool_arrays (snd (run_callback ?A it v)) 0 = bool_arrays v 0"
    by (simp add: run_callback_def example_call_simps)
  have others: "\<And>it v. free_for (set (map item_location [height_item])) (bool_arrays v 0) \<Longrightarrow>
      free_for (set (map item_location [height_item])) (bool_arrays (snd (run_callback ?A it v)) 0)"
    by (simp add: cb)
  have ret: "\<And>it v. fst (run_callback ?A it v) = None"
    by (simp add: run_callback_def example_call_simps)
  have hours: "\<forall>it \<in> set [height_item]. assert_hour ?A = None \<or>
                   assert_hour ?A = Some (forecastTime (item_record it))"
    by (simp add: example_call_simps)
  have ax: "[height_item] = [] \<or> check_axes (item_record (hd [height_item])) = None"
    by (simp add: height_item_simps height_record_simps)
  from wellformed_file_is_committed[OF recs dist m1 m2 c1 c2 others ret hours ax]
  have r: "fst (unpack_grib ?A ?W) = None"
    and g: "\<And>loc. getitem (bool_arrays (snd (unpack_grib ?A ?W)) 0) loc =
                (if loc \<in> set (map item_location [height_item]) then Inr True
                 else getitem (bool_arrays (before_commit ?A ?W) 0) loc)"
    and b: "bool_arrays (before_commit ?A ?W) 0 = bool_arrays ?W 0"
    using cb by blast+
  show ?thesis
    by (simp add: r g b height_item_simps example_world_simps getitem_Dataset_checklist in_range_iff)
qed

text \<open>
  Claim C3 as it stands, without the conditions on the hour and the axes, fails: one
  record for hour 0, a manifest that holds exactly its name, an all-false checklist and
  no callback, but hour 3 expected. The call raises at the first record.
\<close>

theorem wellformed_file_counterexample:
  "grib_records (grib ((example_call [height_record])\<lparr> assert_hour := Some 3 \<rparr>)) =
     map Inr [height_item] \<and>
   distinct (map item_location [height_item]) \<and>
   file_checklist ((example_call [height_record])\<lparr> assert_hour := Some 3 \<rparr>) = Some 0 \<and>
   name_sets (example_world {(0, 1000, ''height'')}) 0 = set (map item_name [height_item]) \<and>
   checklist ((example_call [height_record])\<lparr> assert_hour := Some 3 \<rparr>) = Some 0 \<and>
   free_for (set (map item_location [height_item]))
     (bool_arrays (example_world {(0, 1000, ''height'')}) 0) \<and>
   callback ((example_call [height_record])\<lparr> assert_hour := Some 3 \<rparr>) = None \<and>
   unpack_grib ((example_call [height_record])\<lparr> assert_hour := Some 3 \<rparr>)
     (example_world {(0, 1000, ''height'')}) =
     (Some IncorrectForecastTime, example_world {(0, 1000, ''height'')})"
proof -
  let ?A = "(example_call [height_record])\<lparr> assert_hour := Some 3 \<rparr>"
  let ?W = "example_world {(0, 1000, ''height'')}"
  have u: "unpack_record ?A (height_record, (0, 0, 0), (0, 1000, ''height'')) (?W, initial_locals ?A ?W) =
        (Some IncorrectForecastTime, ?W, initial_locals ?A ?W)"
    by (rule unpack_record_hour[where c = 0 and h = 3])
       (simp_all add: initial_locals_simps example_call_simps example_world_simps
          getitem_Dataset_checklist in_range_iff height_record_simps)
  have "unpack_grib ?A ?W = (Some IncorrectForecastTime, ?W)"
    by (simp add: unpack_grib_def example_call_simps grib_records_height height_item_def[symmetric])
       (simp add: height_item_def u)
  then show ?thesis
    by (simp add: example_call_simps grib_records_height height_item_simps example_world_simps
        free_for_Dataset_checklist)
qed

subsection \<open>A call without a manifest\<close>

lemma finish_records_missing:
  "(fst (finish args w s) = Some RecordsMissing) =
   (case file_checklist_local s of None \<Rightarrow> True | Some ref \<Rightarrow> deref w ref \<noteq> {})"
  by (auto simp: finish_def array_and_def array_ior_def split: option.splits sum.splits)

lemma unpack_record_no_manifest:
  assumes "unpack_record args it (w, s) = (r, w', s')" and "file_checklist_local s = None"
  shows "file_checklist_local s' = None"
proof -
  obtain m loc nm where it: "it = (m, loc, nm)" by (cases it) auto
  show ?thesis
    using assms unfolding unpack_record_def it
    by (auto simp: Let_def split: option.splits sum.splits)
qed

lemma unpack_loop_no_manifest:
  assumes "unpack_loop args items (w, s) = (r, w', s')" and "file_checklist_local s = None"
  shows "file_checklist_local s' = None"
  using assms
proof (induction items arbitrary: w s)
  case Nil
  then show ?case by simp
next
  case (Cons x items)
  show ?case
  proof (cases x)
    case (Inl e)
    with Cons.prems show ?thesis by simp
  next
    case (Inr it)
    from Cons.prems(1)[unfolded Inr] show ?thesis
    proof (cases rule: unpack_loop_Inr_cases)
      case (record_fails e)
      from unpack_record_no_manifest[OF record_fails(1) Cons.prems(2)] show ?thesis .
    next
      case (callback_fails e w1)
      from unpack_record_no_manifest[OF callback_fails(1) Cons.prems(2)] show ?thesis .
    next
      case (continues w1 s1 w2)
      from unpack_record_no_manifest[OF continues(1) Cons.prems(2)]
      have "file_checklist_local s1 = None" .
      from Cons.IH[OF continues(3) this] show ?thesis .
    qed
  qed
qed

lemma no_manifest_never_returns:
  assumes "file_checklist args = None"
  shows "\<exists>e. fst (unpack_grib args w) = Some e"
proof -
  obtain r v s where l: "unpack_loop args (grib_records (grib args)) (w, initial_locals args w) = (r, v, s)"
    by (cases "unpack_loop args (grib_records (grib args)) (w, initial_locals args w)") auto
  have "file_checklist_local (initial_locals args w) = None"
    by (simp add: initial_locals_simps assms)
  from unpack_loop_no_manifest[OF l this] have n: "file_checklist_local s = None" .
  show ?thesis
  proof (cases r)
    case None
    then show ?thesis using l n by (simp add: unpack_grib_def finish_def)
  next
    case (Some e)
    then show ?thesis using l by (simp add: unpack_grib_def)
  qed
qed

text \<open>
  Claim C2 says that a call without a manifest cannot fail for missing records. In the
  code the test after the loop is \<^verbatim>\<open>file_checklist != set()\<close>, which is true of
  \<^verbatim>\<open>None\<close>: the call below, on a file of one record that passes every check of the
  loop, raises \<^verbatim>\<open>ValueError("records missing from file")\<close> and commits nothing.
\<close>

theorem no_manifest_call_raises:
  "fst (unpack_grib ((example_call [height_record])\<lparr> file_checklist := None \<rparr>) (example_world {})) =
     Some RecordsMissing \<and>
   bool_arrays (snd (unpack_grib ((example_call [height_record])\<lparr> file_checklist := None \<rparr>)
     (example_world {}))) 0 = Dataset_checklist"
proof -
  let ?A = "(example_call [height_record])\<lparr> file_checklist := None \<rparr>"
  let ?W = "example_world {} :: nat world"
  let ?s0 = "initial_locals ?A ?W"
  have cb: "\<And>it v. bool_arrays (snd (run_callback ?A it v)) 0 = bool_arrays v 0"
    by (simp add: run_callback_def example_call_simps)
  have ret: "\<And>it v. fst (run_callback ?A it v) = None"
    by (simp add: run_callback_def example_call_simps)
  have p1: "marks (checklist_temp ?s0) {}"
    by (simp add: initial_locals_simps marks_Dataset_checklist)
  have "\<exists>v s'. unpack_loop ?A (map Inr [height_item]) (?W, ?s0) = (None, v, s') \<and>
           marks (checklist_temp s') ({} \<union> set (map item_location [height_item])) \<and>
           free_for {(0, 0, 0)} (bool_arrays v 0) \<and>
           file_checklist_local s' =
             (case file_checklist_local ?s0 of
                None \<Rightarrow> None
              | Some ref \<Rightarrow> Some (Copied (deref ?W ref - set (map item_name [height_item]))))"
    by (rule unpack_loop_ok[OF p1])
       (simp_all add: height_item_simps height_record_simps in_range_iff example_call_simps
          example_world_simps free_for_Dataset_checklist cb ret initial_locals_simps)
  then obtain v s' where l: "unpack_loop ?A (map Inr [height_item]) (?W, ?s0) = (None, v, s')"
    and fc: "file_checklist_local s' = None"
    by (auto simp: initial_locals_simps)
  have u: "unpack_grib ?A ?W = (Some RecordsMissing, v)"
    using l fc by (simp add: unpack_grib_def example_call_simps grib_records_height finish_def)
  have "bool_arrays v 0 = bool_arrays ?W 0"
    by (rule unpack_grib_failure_invariant[of "\<lambda>a. a = bool_arrays (example_world {}) 0" 0 _ _ RecordsMissing, OF _ _ u]) (simp_all add: cb)
  then show ?thesis by (simp add: u example_world_simps)
qed

subsection \<open>The caller's manifest\<close>

text \<open>
  Removing from the set the caller passed would change it in the store; removing from
  the copy does not touch the store.
\<close>

lemma set_remove_Passed:
  "x \<in> name_sets w a \<Longrightarrow>
   \<exists>w'. set_remove (Passed a) x w = Inr (w', Passed a) \<and> name_sets w' a = name_sets w a - {x}"
  by simp

lemma set_remove_Copied:
  "set_remove (Copied M) x w = Inr (w', r) \<Longrightarrow> w' = w \<and> r = Copied (M - {x})"
  by (simp split: if_splits)

lemma unpack_record_name_sets:
  assumes "unpack_record args it (w, s) = (r, w', s')"
    and "\<forall>a. file_checklist_local s \<noteq> Some (Passed a)"
  shows "name_sets w' = name_sets w \<and> (\<forall>a. file_checklist_local s' \<noteq> Some (Passed a))"
proof -
  obtain m loc nm where it: "it = (m, loc, nm)" by (cases it) auto
  show ?thesis
  proof (cases "file_checklist_local s")
    case None
    then show ?thesis
      using assms(1) unfolding unpack_record_def it
      by (auto simp: Let_def write_record_name_sets split: option.splits sum.splits if_splits)
  next
    case (Some ref)
    with assms(2) obtain M where M: "ref = Copied M" by (cases ref) auto
    have fs: "file_checklist_local s = Some (Copied M)" by (simp add: Some M)
    show ?thesis
      using assms(1) fs unfolding unpack_record_def it
      by (auto simp: Let_def write_record_name_sets
               split: option.splits sum.splits if_splits)
  qed
qed

lemma unpack_loop_name_sets:
  assumes cb: "\<And>it v. name_sets (snd (run_callback args it v)) a = name_sets v a"
    and "unpack_loop args items (w, s) = (r, w', s')"
    and "\<forall>a. file_checklist_local s \<noteq> Some (Passed a)"
  shows "name_sets w' a = name_sets w a"
  using assms(2,3)
proof (induction items arbitrary: w s)
  case Nil
  then show ?case by simp
next
  case (Cons x items)
  show ?case
  proof (cases x)
    case (Inl e)
    with Cons.prems show ?thesis by simp
  next
    case (Inr it)
    from Cons.prems(1)[unfolded Inr] show ?thesis
    proof (cases rule: unpack_loop_Inr_cases)
      case (record_fails e)
      from unpack_record_name_sets[OF record_fails(1) Cons.prems(2)] show ?thesis by simp
    next
      case (callback_fails e w1)
      from unpack_record_name_sets[OF callback_fails(1) Cons.prems(2)]
      have "name_sets w1 = name_sets w" by simp
      with cb[of it w1] callback_fails(2) show ?thesis by simp
    next
      case (continues w1 s1 w2)
      from unpack_record_name_sets[OF continues(1) Cons.prems(2)]
      have n: "name_sets w1 = name_sets w" and p: "\<forall>a. file_checklist_local s1 \<noteq> Some (Passed a)"
        by simp_all
      from cb[of it w1] continues(2) n have "name_sets w2 a = name_sets w a" by simp
      with Cons.IH[OF continues(3) p] show ?thesis by simp
    qed
  qed
qed

lemma finish_name_sets: "finish args w s = (r, w') \<Longrightarrow> name_sets w' = name_sets w"
  by (auto simp: finish_def split: if_splits option.splits sum.splits)

text \<open>
  Claim C10. \<^verbatim>\<open>unpack_grib\<close> never changes the set passed as \<^verbatim>\<open>file_checklist\<close>: it
  rebinds the name to a copy before the loop, and every \<^verbatim>\<open>remove\<close> acts on the copy.
  Whether the call returns or raises, every set of the store (the caller's manifest
  among them) is after the call what it was before, as far as the callback (the
  caller's own code) leaves it alone.
\<close>

theorem unpack_grib_keeps_manifest:
  assumes "\<And>it v. name_sets (snd (run_callback args it v)) a = name_sets v a"
  shows "name_sets (snd (unpack_grib args w)) a = name_sets w a"
proof -
  obtain r v s where l: "unpack_loop args (grib_records (grib args)) (w, initial_locals args w) = (r, v, s)"
    by (cases "unpack_loop args (grib_records (grib args)) (w, initial_locals args w)") auto
  have "\<forall>a. file_checklist_local (initial_locals args w) \<noteq> Some (Passed a)"
    by (simp add: initial_locals_simps split: option.splits)
  from unpack_loop_name_sets[of args a, OF assms l this]
  have v: "name_sets v a = name_sets w a" .
  show ?thesis
  proof (cases r)
    case None
    obtain r' w' where f: "finish args v s = (r', w')" by (cases "finish args v s") auto
    from finish_name_sets[OF f] v show ?thesis
      by (simp add: unpack_grib_def l None f)
  next
    case (Some e)
    with v show ?thesis by (simp add: unpack_grib_def l)
  qed
qed

theorem unpack_grib_keeps_manifest_witness:
  "file_checklist (example_call [height_record]) = Some 0 \<and>
   name_sets (snd (unpack_grib (example_call [height_record])
      (example_world {(0, 1000, ''height'')}))) 0 = {(0, 1000, ''height'')}"
proof -
  have "\<And>it v. name_sets (snd (run_callback (example_call [height_record]) it v)) 0 = name_sets v 0"
    by (simp add: run_callback_def example_call_simps)
  from unpack_grib_keeps_manifest[of "example_call [height_record]" 0, OF this]
  show ?thesis by (simp add: example_world_simps example_call_simps)
qed

subsection \<open>Shapes\<close>

lemma finish_shape:
  "finish args w s = (r, w') \<Longrightarrow> arr_shape (bool_arrays w' a) = arr_shape (bool_arrays w a)"
  by (auto simp: finish_def array_ior_Inr split: if_splits option.splits sum.splits)

lemma unpack_grib_shape:
  assumes "\<And>it v. arr_shape (bool_arrays (snd (run_callback args it v)) a) = arr_shape (bool_arrays v a)"
  shows "arr_shape (bool_arrays (snd (unpack_grib args w)) a) = arr_shape (bool_arrays w a)"
proof -
  obtain r v s where l: "unpack_loop args (grib_records (grib args)) (w, initial_locals args w) = (r, v, s)"
    by (cases "unpack_loop args (grib_records (grib args)) (w, initial_locals args w)") auto
  from unpack_loop_bool_arrays[of "\<lambda>x. arr_shape x = arr_shape (bool_arrays w a)" a args w _ _ r v s]
    assms l
  have v: "arr_shape (bool_arrays v a) = arr_shape (bool_arrays w a)" by simp
  show ?thesis
  proof (cases r)
    case None
    obtain r' w' where f: "finish args v s = (r', w')" by (cases "finish args v s") auto
    from finish_shape[OF f] v show ?thesis
      by (simp add: unpack_grib_def l None f)
  next
    case (Some e)
    with v show ?thesis by (simp add: unpack_grib_def l)
  qed
qed

text \<open>
  Claim C9. \<^verbatim>\<open>Dataset.shape\<close> is the constant (65, 47, 3, 361, 720); it equals the tuple
  of the lengths of the five axes (the assertion of the class body holds); a checklist
  made by \<^verbatim>\<open>Dataset.checklist()\<close> has the first three components as its shape. No
  operation changes a shape: writing an element of an array, merging one array into
  another, and a whole call of \<^verbatim>\<open>unpack_grib\<close> (with a callback that reshapes nothing)
  leave every boolean array of the store with the shape it had.
\<close>

theorem dataset_shape_invariant:
  "shape = [65, 47, 3, 361, 720] \<and>
   axes_lengths axes = shape \<and>
   arr_shape Dataset_checklist = take 3 shape \<and>
   (\<forall>t loc v t'. setitem t loc v = Inr t' \<longrightarrow> arr_shape (t' :: bool ndarray) = arr_shape t) \<and>
   (\<forall>t u t'. array_ior t u = Inr t' \<longrightarrow> arr_shape t' = arr_shape t) \<and>
   (\<forall>(args :: 'g arguments) w a.
      (\<forall>it v. arr_shape (bool_arrays (snd (run_callback args it v)) a) = arr_shape (bool_arrays v a)) \<longrightarrow>
      arr_shape (bool_arrays (snd (unpack_grib args w)) a) = arr_shape (bool_arrays w a))"
proof -
  have "length (hour axes) = 65" by (simp add: hour_axis)
  moreover have "length (pressure axes) = 47" by (simp add: pressure_axis)
  moreover have "length (variable axes) = 3" by (simp add: variable_axis)
  ultimately have l: "axes_lengths axes = shape"
    by (simp add: axes_lengths_def shape_def latitude_length longitude_length)
  have s: "shape = [65, 47, 3, 361, 720]" by (simp add: shape_def)
  have c: "arr_shape Dataset_checklist = take 3 shape" by (simp add: checklist_shape shape_def)
  have si: "\<forall>t loc v t'. setitem t loc v = Inr t' \<longrightarrow> arr_shape (t' :: bool ndarray) = arr_shape t"
    by (auto dest: setitem_shape)
  have io: "\<forall>t u t'. array_ior t u = Inr t' \<longrightarrow> arr_shape t' = arr_shape t"
    by (auto simp: array_ior_Inr)
  have ug: "\<forall>(args :: 'g arguments) w a.
      (\<forall>it v. arr_shape (bool_arrays (snd (run_callback args it v)) a) = arr_shape (bool_arrays v a)) \<longrightarrow>
      arr_shape (bool_arrays (snd (unpack_grib args w)) a) = arr_shape (bool_arrays w a)"
    by (auto intro: unpack_grib_shape)
  from s l c si io ug show ?thesis by blast
qed

theorem dataset_shape_invariant_witness:
  "shape = [65, 47, 3, 361, 720] \<and> axes_lengths axes = shape \<and>
   arr_shape (bool_arrays (snd (unpack_grib (example_call [height_record])
      (example_world {(0, 1000, ''height'')}))) 0) = [65, 47, 3]"
proof -
  have cb: "\<forall>it v. arr_shape (bool_arrays (snd (run_callback (example_call [height_record]) it v)) 0) =
              arr_shape (bool_arrays v 0)"
    by (simp add: run_callback_def example_call_simps)
  from dataset_shape_invariant[where 'g = nat] cb
  have "shape = [65, 47, 3, 361, 720]" and "axes_lengths axes = shape"
    and "arr_shape (bool_arrays (snd (unpack_grib (example_call [height_record])
      (example_world {(0, 1000, ''height'')}))) 0) =
      arr_shape (bool_arrays (example_world {(0, 1000, ''height'')}) 0)"
    by blast+
  then show ?thesis by (simp add: example_world_simps checklist_shape)
qed

subsection \<open>What a completed iteration has checked and written\<close>

lemma check_record_None:
  assumes "check_record w r loc nm temp chk hw fc = None"
  shows "getitem temp loc = Inr False"
    and "\<And>c. chk = Some c \<Longrightarrow> getitem (bool_arrays w c) loc = Inr False"
  using assms
  by (auto simp: check_record_def split: sum.splits bool.splits option.splits if_splits)

lemma unpack_record_None:
  assumes "unpack_record args (r, loc, nm) (w, s) = (None, w', s')"
  shows "getitem (checklist_temp s) loc = Inr False"
    and "\<And>c. checklist args = Some c \<Longrightarrow> getitem (bool_arrays w c) loc = Inr False"
    and "setitem (checklist_temp s) loc True = Inr (checklist_temp s')"
    and "float_arrays w' = float_arrays (write_record args (r, loc, nm) w)"
proof -
  from assms have cr: "check_record w r loc nm (checklist_temp s) (checklist args)
       (assert_hour args) (file_checklist_local s) = None"
    by (auto simp: unpack_record_def split: option.splits)
  from check_record_None[OF cr]
  show "getitem (checklist_temp s) loc = Inr False"
    and "\<And>c. checklist args = Some c \<Longrightarrow> getitem (bool_arrays w c) loc = Inr False"
    by simp_all
  from assms cr show "setitem (checklist_temp s) loc True = Inr (checklist_temp s')"
    by (auto simp: unpack_record_def Let_def split: option.splits sum.splits if_splits)
  from assms cr show "float_arrays w' = float_arrays (write_record args (r, loc, nm) w)"
    by (cases "file_checklist_local s"; cases "the (file_checklist_local s)")
       (auto simp: unpack_record_def Let_def split: option.splits sum.splits if_splits)
qed

lemma write_record_float_arrays:
  "float_arrays (write_record args (r, loc, nm) w) d l =
     (if dataset args = Some d \<and> l = loc then values_grid r else float_arrays w d l)"
  by (auto simp: write_record_def Let_def split: option.splits)

lemma unpack_loop_append:
  "unpack_loop args (xs @ ys) ws =
     (case unpack_loop args xs ws of
        (None, ws') \<Rightarrow> unpack_loop args ys ws'
      | (Some e, ws') \<Rightarrow> (Some e, ws'))"
proof (induction xs arbitrary: ws)
  case Nil
  then show ?case by simp
next
  case (Cons x xs)
  show ?case
  proof (cases x)
    case (Inl e)
    then show ?thesis by simp
  next
    case (Inr it)
    show ?thesis
    proof (cases "unpack_record args it ws")
      case (fields r w' s')
      show ?thesis
      proof (cases "run_callback args it w'")
        case (Pair q w'')
        with fields Inr Cons.IH show ?thesis by (cases r; cases q) simp_all
      qed
    qed
  qed
qed

lemma unpack_loop_marked:
  assumes "unpack_loop args items (w, s) = (None, v, s')"
  shows "(getitem (checklist_temp s) loc = Inr True \<longrightarrow> getitem (checklist_temp s') loc = Inr True) \<and>
         (\<forall>r nm. Inr (r, loc, nm) \<in> set items \<longrightarrow> getitem (checklist_temp s') loc = Inr True)"
  using assms
proof (induction items arbitrary: w s)
  case Nil
  then show ?case by simp
next
  case (Cons x items)
  show ?case
  proof (cases x)
    case (Inl e)
    with Cons.prems show ?thesis by simp
  next
    case (Inr it)
    obtain r1 l1 n1 where it: "it = (r1, l1, n1)" by (cases it) auto
    from Cons.prems[unfolded Inr it] show ?thesis
    proof (cases rule: unpack_loop_Inr_cases)
      case (record_fails e)
      then show ?thesis by simp
    next
      case (callback_fails e w1)
      then show ?thesis by simp
    next
      case (continues w1 s1 w2)
      note si = unpack_record_None(3)[OF continues(1)]
      have g: "getitem (checklist_temp s1) loc =
               (if loc = l1 then Inr True else getitem (checklist_temp s) loc)"
        by (rule getitem_setitem[OF si])
      from Cons.IH[OF continues(3)] g show ?thesis
        by (auto simp: Inr it)
    qed
  qed
qed

subsection \<open>The example file, unpacked\<close>

lemma example_callback:
  "run_callback (example_call msgs) it v = (None, v)"
  "bool_arrays (snd (run_callback (example_call msgs) it v)) = bool_arrays v"
  "float_arrays (snd (run_callback (example_call msgs) it v)) = float_arrays v"
  "name_sets (snd (run_callback (example_call msgs) it v)) = name_sets v"
  by (simp_all add: run_callback_def example_call_simps)

lemma example_unpack_height:
  "fst (unpack_grib (example_call [height_record]) (example_world {(0, 1000, ''height'')})) = None"
  "getitem (bool_arrays (snd (unpack_grib (example_call [height_record])
       (example_world {(0, 1000, ''height'')}))) 0) loc =
     (if loc = (0, 0, 0) then Inr True else getitem Dataset_checklist loc)"
proof -
  let ?A = "example_call [height_record]"
  let ?W = "example_world {(0, 1000, ''height'')}"
  have recs: "grib_records (grib ?A) = map Inr [height_item]"
    by (simp add: example_call_simps grib_records_height)
  have dist: "distinct (map item_location [height_item])" by simp
  have m1: "file_checklist ?A = Some 0" by (simp add: example_call_simps)
  have m2: "name_sets ?W 0 = set (map item_name [height_item])"
    by (simp add: example_world_simps height_item_simps)
  have c1: "checklist ?A = Some 0" by (simp add: example_call_simps)
  have c2: "free_for (set (map item_location [height_item])) (bool_arrays ?W 0)"
    by (simp add: example_world_simps height_item_simps free_for_Dataset_checklist)
  have cb: "\<And>it v. bool_arrays (snd (run_callback ?A it v)) 0 = bool_arrays v 0"
    by (simp add: example_callback)
  have others: "\<And>it v. free_for (set (map item_location [height_item])) (bool_arrays v 0) \<Longrightarrow>
      free_for (set (map item_location [height_item])) (bool_arrays (snd (run_callback ?A it v)) 0)"
    by (simp add: example_callback)
  have ret: "\<And>it v. fst (run_callback ?A it v) = None"
    by (simp add: example_callback)
  have hours: "\<forall>it \<in> set [height_item]. assert_hour ?A = None \<or>
                   assert_hour ?A = Some (forecastTime (item_record it))"
    by (simp add: example_call_simps)
  have ax: "[height_item] = [] \<or> check_axes (item_record (hd [height_item])) = None"
    by (simp add: height_item_simps height_record_simps)
  from wellformed_unpack[OF recs dist m1 m2 c1 c2 others ret hours ax]
  have r: "fst (unpack_grib ?A ?W) = None"
    and g: "\<And>loc. getitem (bool_arrays (snd (unpack_grib ?A ?W)) 0) loc =
                (if loc \<in> set (map item_location [height_item]) then Inr True
                 else getitem (bool_arrays (before_commit ?A ?W) 0) loc)"
    and b: "bool_arrays (before_commit ?A ?W) 0 = bool_arrays ?W 0"
    using cb by blast+
  show "fst (unpack_grib ?A ?W) = None" by (rule r)
  show "getitem (bool_arrays (snd (unpack_grib ?A ?W)) 0) loc =
     (if loc = (0, 0, 0) then Inr True else getitem Dataset_checklist loc)"
    by (simp add: g b height_item_simps example_world_simps)
qed

subsection \<open>Unpacking a committed file again\<close>

lemma committed_slot:
  assumes "array_ior a t = Inr m" and "getitem t loc = Inr True"
  shows "getitem m loc = Inr True"
proof -
  from assms(1) have "arr_shape a = arr_shape t" "length (arr_data a) = length (arr_data t)"
    by (simp_all add: array_ior_Inr)
  with assms(2) obtain x where "getitem a loc = Inr x"
    by (auto simp: getitem_Inr)
  with assms(2) show ?thesis by (simp add: getitem_ior[OF assms(1)])
qed

lemma unpack_grib_None:
  assumes "unpack_grib args w = (None, w')"
  shows "\<exists>v s c m. unpack_loop args (grib_records (grib args)) (w, initial_locals args w) = (None, v, s) \<and>
           checklist args = Some c \<and>
           array_ior (bool_arrays v c) (checklist_temp s) = Inr m \<and>
           w' = v\<lparr> bool_arrays := (bool_arrays v)(c := m) \<rparr>"
proof -
  obtain r v s where l: "unpack_loop args (grib_records (grib args)) (w, initial_locals args w) = (r, v, s)"
    by (cases "unpack_loop args (grib_records (grib args)) (w, initial_locals args w)") auto
  with assms have r: "r = None" by (cases r) (simp_all add: unpack_grib_def)
  with assms l have "finish args v s = (None, w')" by (simp add: unpack_grib_def)
  from finish_None[OF this] l r show ?thesis by blast
qed

text \<open>
  Claim C6. If \<^verbatim>\<open>unpack_grib\<close> has committed a file to a shared checklist, unpacking
  the same file against that checklist again (whatever the other arguments and the
  callback) raises at the first record the generator yields, with the error of a
  record already unpacked from another file: its slot is true in the shared checklist.
  Nothing has been written at that point, so the checklist, like the rest of the store,
  is unchanged.
\<close>

theorem reingest_fails:
  assumes first: "unpack_grib args w = (None, w')"
    and stream: "grib_records (grib args) = Inr it # rest"
    and again: "grib args2 = grib args" "checklist args2 = checklist args"
  shows "unpack_grib args2 w' = (Some (AlreadyUnpacked (item_name it)), w')"
proof -
  obtain r loc nm where it: "it = (r, loc, nm)" by (cases it) auto
  from unpack_grib_None[OF first] obtain v s c m where
    l: "unpack_loop args (grib_records (grib args)) (w, initial_locals args w) = (None, v, s)"
    and c: "checklist args = Some c"
    and m: "array_ior (bool_arrays v c) (checklist_temp s) = Inr m"
    and w': "w' = v\<lparr> bool_arrays := (bool_arrays v)(c := m) \<rparr>"
    by blast
  have "Inr (r, loc, nm) \<in> set (grib_records (grib args))" by (simp add: stream it)
  with unpack_loop_marked[OF l, of loc] have t: "getitem (checklist_temp s) loc = Inr True"
    by blast
  from committed_slot[OF m t] have shared: "getitem (bool_arrays w' c) loc = Inr True"
    by (simp add: w')
  obtain q w1 s1 where u: "unpack_record args (r, loc, nm) (w, initial_locals args w) = (q, w1, s1)"
    by (cases "unpack_record args (r, loc, nm) (w, initial_locals args w)") auto
  from l stream it u have q: "q = None" by (cases q) simp_all
  from unpack_record_None(1)[OF u[unfolded q]]
  have fresh: "getitem (checklist_temp (initial_locals args2 w')) loc = Inr False"
    by (simp add: initial_locals_simps)
  have c2: "checklist args2 = Some c" by (simp add: again c)
  from unpack_record_already[OF fresh c2 shared]
  have "unpack_record args2 (r, loc, nm) (w', initial_locals args2 w') =
          (Some (AlreadyUnpacked nm), w', initial_locals args2 w')" .
  then show ?thesis
    by (simp add: unpack_grib_def again stream it item_name_def)
qed

theorem reingest_fails_witness:
  "unpack_grib (example_call [height_record])
     (snd (unpack_grib (example_call [height_record]) (example_world {(0, 1000, ''height'')}))) =
   (Some (AlreadyUnpacked (0, 1000, ''height'')),
    snd (unpack_grib (example_call [height_record]) (example_world {(0, 1000, ''height'')})))"
proof -
  let ?A = "example_call [height_record]"
  let ?W = "example_world {(0, 1000, ''height'')}"
  have "fst (unpack_grib ?A ?W) = None" by (simp add: example_unpack_height)
  then have first: "unpack_grib ?A ?W = (None, snd (unpack_grib ?A ?W))"
    by (simp add: prod_eq_iff)
  have stream: "grib_records (grib ?A) = Inr height_item # []"
    by (simp add: example_call_simps grib_records_height)
  from reingest_fails[OF first stream refl refl]
  show ?thesis by (simp add: height_item_simps)
qed

subsection \<open>A record repeated in the file\<close>

lemma unpack_loop_written:
  assumes "unpack_loop args items (w, s) = (None, v, s')"
    and cb: "\<And>it u. float_arrays (snd (run_callback args it u)) d = float_arrays u d"
    and ds: "dataset args = Some d"
  shows "(getitem (checklist_temp s) loc = Inr True \<longrightarrow> float_arrays v d loc = float_arrays w d loc) \<and>
         (\<forall>r nm. Inr (r, loc, nm) \<in> set items \<longrightarrow> float_arrays v d loc = values_grid r)"
  using assms(1)
proof (induction items arbitrary: w s)
  case Nil
  then show ?case by simp
next
  case (Cons x items)
  show ?case
  proof (cases x)
    case (Inl e)
    with Cons.prems show ?thesis by simp
  next
    case (Inr it)
    obtain r1 l1 n1 where it: "it = (r1, l1, n1)" by (cases it) auto
    from Cons.prems[unfolded Inr it]
    obtain w1 s1 w2 where u': "unpack_record args (r1, l1, n1) (w, s) = (None, w1, s1)"
      and rc: "run_callback args (r1, l1, n1) w1 = (None, w2)"
      and l: "unpack_loop args items (w2, s1) = (None, v, s')"
      by (cases rule: unpack_loop_Inr_cases) simp_all
    have g: "getitem (checklist_temp s1) loc =
             (if loc = l1 then Inr True else getitem (checklist_temp s) loc)"
      by (rule getitem_setitem[OF unpack_record_None(3)[OF u']])
    have "float_arrays w2 d = float_arrays w1 d"
      using cb[of "(r1, l1, n1)" w1] rc by simp
    then have f: "float_arrays w2 d loc =
             (if loc = l1 then values_grid r1 else float_arrays w d loc)"
      by (simp add: unpack_record_None(4)[OF u'] write_record_float_arrays ds)
    from Cons.IH[OF l]
    have ih1: "getitem (checklist_temp s1) loc = Inr True \<Longrightarrow>
                 float_arrays v d loc = float_arrays w2 d loc"
      and ih2: "\<And>r nm. Inr (r, loc, nm) \<in> set items \<Longrightarrow> float_arrays v d loc = values_grid r"
      by blast+
    have a: "float_arrays v d loc = float_arrays w d loc"
      if t: "getitem (checklist_temp s) loc = Inr True"
    proof -
      from unpack_record_None(1)[OF u'] t have "loc \<noteq> l1" by auto
      with ih1 g f t show ?thesis by simp
    qed
    have b: "float_arrays v d loc = values_grid r" if m: "Inr (r, loc, nm) \<in> set (x # items)" for r nm
    proof (cases "Inr (r, loc, nm) \<in> set items")
      case True
      then show ?thesis by (rule ih2)
    next
      case False
      with m Inr it have e: "r1 = r" "l1 = loc" by simp_all
      with ih1 g f show ?thesis by simp
    qed
    from a b show ?thesis by blast
  qed
qed

text \<open>
  Claim C5. Let the generator yield a record for a slot for which it has yielded a
  record before. Then the call raises and the shared checklist is unchanged. If the
  records before the second one are unpacked without an exception, the exception is
  the one of a record repeated in the file, raised at the second record, and the grid
  of the first record is in the dataset's array (when a dataset is given): the write
  is not undone. The callback is taken not to write the checklist or the array itself.
\<close>

theorem duplicate_in_file:
  assumes stream: "grib_records (grib args) = pre @ Inr (r2, loc, nm2) # post"
    and earlier: "Inr (r1, loc, nm1) \<in> set pre"
    and cb: "\<And>it u. bool_arrays (snd (run_callback args it u)) c = bool_arrays u c"
            "\<And>it u. float_arrays (snd (run_callback args it u)) d = float_arrays u d"
  shows "(\<exists>e. unpack_grib args w = (Some e, before_commit args w)) \<and>
         bool_arrays (before_commit args w) c = bool_arrays w c \<and>
         (\<forall>v s. unpack_loop args pre (w, initial_locals args w) = (None, v, s) \<longrightarrow>
            unpack_grib args w = (Some (RepeatedInFile nm2), v) \<and>
            (dataset args = Some d \<longrightarrow> float_arrays v d loc = values_grid r1))"
proof -
  let ?s0 = "initial_locals args w"
  have reached: "unpack_grib args w = (Some (RepeatedInFile nm2), v) \<and> before_commit args w = v \<and>
            (dataset args = Some d \<longrightarrow> float_arrays v d loc = values_grid r1)"
    if l: "unpack_loop args pre (w, ?s0) = (None, v, s)" for v s
  proof -
    from unpack_loop_marked[OF l, of loc] earlier
    have "getitem (checklist_temp s) loc = Inr True" by blast
    from unpack_record_repeated[OF this]
    have "unpack_record args (r2, loc, nm2) (v, s) = (Some (RepeatedInFile nm2), v, s)" .
    then have whole: "unpack_loop args (grib_records (grib args)) (w, ?s0) =
                 (Some (RepeatedInFile nm2), v, s)"
      by (simp add: stream unpack_loop_append l)
    then have "unpack_grib args w = (Some (RepeatedInFile nm2), v)"
      by (simp add: unpack_grib_def)
    moreover from whole have "before_commit args w = v" by (simp add: before_commit_def)
    moreover have "float_arrays v d loc = values_grid r1" if "dataset args = Some d"
      using unpack_loop_written[OF l cb(2) that, of loc] earlier by blast
    ultimately show ?thesis by blast
  qed
  have fails: "\<exists>e. unpack_grib args w = (Some e, before_commit args w)"
  proof (cases "unpack_loop args pre (w, ?s0)")
    case (fields q v s)
    show ?thesis
    proof (cases q)
      case None
      with fields reached[of v s] show ?thesis by auto
    next
      case (Some e)
      with fields have "unpack_loop args (grib_records (grib args)) (w, ?s0) = (Some e, v, s)"
        by (simp add: stream unpack_loop_append)
      then show ?thesis by (simp add: unpack_grib_def before_commit_def)
    qed
  qed
  have kept: "bool_arrays (before_commit args w) c = bool_arrays w c"
    by (rule before_commit_bool_arrays) (rule cb(1))
  from fails kept reached show ?thesis by blast
qed

theorem duplicate_in_file_witness:
  "fst (unpack_grib (example_call [height_record, height_record])
          (example_world {(0, 1000, ''height'')})) = Some (RepeatedInFile (0, 1000, ''height'')) \<and>
   bool_arrays (snd (unpack_grib (example_call [height_record, height_record])
          (example_world {(0, 1000, ''height'')}))) 0 = Dataset_checklist \<and>
   float_arrays (snd (unpack_grib (example_call [height_record, height_record])
          (example_world {(0, 1000, ''height'')}))) 0 (0, 0, 0) = values_grid height_record"
proof -
  let ?A = "example_call [height_record, height_record]"
  let ?W = "example_world {(0, 1000, ''height'')}"
  let ?s0 = "initial_locals ?A ?W"
  have stream: "grib_records (grib ?A) =
      [Inr height_item] @ Inr (height_record, (0, 0, 0), (0, 1000, ''height'')) # []"
    by (simp add: example_call_simps grib_records_def grib_record_height height_item_def)
  have earlier: "Inr (height_record, (0, 0, 0), (0, 1000, ''height'')) \<in> set [Inr height_item]"
    by (simp add: height_item_def)
  have cb1: "\<And>it u. bool_arrays (snd (run_callback ?A it u)) 0 = bool_arrays u 0"
    and cb2: "\<And>it u. float_arrays (snd (run_callback ?A it u)) 0 = float_arrays u 0"
    by (simp_all add: example_callback)
  have p1: "marks (checklist_temp ?s0) {}"
    by (simp add: initial_locals_simps marks_Dataset_checklist)
  have "\<exists>v s'. unpack_loop ?A (map Inr [height_item]) (?W, ?s0) = (None, v, s') \<and>
           marks (checklist_temp s') ({} \<union> set (map item_location [height_item])) \<and>
           free_for {(0, 0, 0)} (bool_arrays v 0) \<and>
           file_checklist_local s' =
             (case file_checklist_local ?s0 of
                None \<Rightarrow> None
              | Some ref \<Rightarrow> Some (Copied (deref ?W ref - set (map item_name [height_item]))))"
    by (rule unpack_loop_ok[OF p1])
       (simp_all add: height_item_simps height_record_simps in_range_iff example_call_simps
          example_world_simps free_for_Dataset_checklist cb1 example_callback initial_locals_simps)
  then obtain v s where l: "unpack_loop ?A [Inr height_item] (?W, ?s0) = (None, v, s)"
    by auto
  from duplicate_in_file[OF stream earlier cb1 cb2, of ?W] l
  have u: "unpack_grib ?A ?W = (Some (RepeatedInFile (0, 1000, ''height'')), v)"
    and k: "bool_arrays (before_commit ?A ?W) 0 = bool_arrays ?W 0"
    and b: "\<exists>e. unpack_grib ?A ?W = (Some e, before_commit ?A ?W)"
    and f: "dataset ?A = Some 0 \<longrightarrow> float_arrays v 0 (0, 0, 0) = values_grid height_record"
    by blast+
  from u b have "before_commit ?A ?W = v" by auto
  with u k f show ?thesis by (simp add: example_call_simps example_world_simps)
qed

section \<open>The directory listing\<close>

lemma strptime_examples:
  "strptime_YmdH ''2024010100'' = Some (2024, 1, 1, 0)"
  "strptime_YmdH ''notadate.t'' = None"
  by (simp_all add: strptime_YmdH_def digit_val_def day_field_def days_in_month_def)

lemma listdir_filter:
  "listdir p entries directory only_suffices =
     map (\<lambda>fn. \<lparr> ds_time = the (p (take 10 fn)), suffix = drop 10 fn, filename = fn,
                  path = path_join directory fn \<rparr>)
       (filter (\<lambda>fn. 10 \<le> length fn \<and> p (take 10 fn) \<noteq> None \<and>
                  (case only_suffices of
                     None \<Rightarrow> True
                   | Some S \<Rightarrow> S = {} \<or> drop 10 fn \<in> S))
          entries)"
proof (induction entries)
  case Nil
  show ?case by simp
next
  case (Cons fn entries)
  show ?case
  proof (cases "length fn < 10")
    case True
    with Cons show ?thesis by simp
  next
    case long: False
    show ?thesis
    proof (cases "p (take 10 fn)")
      case None
      with long Cons show ?thesis by simp
    next
      case (Some t)
      obtain y m d h where t: "t = (y, m, d, h)" by (cases t) auto
      note Some = Some[unfolded t]
      show ?thesis
      proof (cases only_suffices)
        case None
        with Some long Cons show ?thesis by auto
      next
        case (Some S)
        with \<open>p (take 10 fn) = Some (y, m, d, h)\<close> long Cons show ?thesis
          by (cases "S = {}"; cases "drop 10 fn \<in> S") auto
      qed
    qed
  qed
qed

text \<open>
  Claim C8, amended. \<^verbatim>\<open>Dataset.listdir\<close> yields, in the order of the directory, exactly
  the entries whose name has at least ten characters of which the first ten parse as a
  timestamp, each with the timestamp, the rest of the name as suffix, the name, and
  the path joined from directory and name. A set of suffixes that is not empty keeps
  only the entries whose suffix is in it; \<^verbatim>\<open>None\<close> and the empty set keep them all.
  For the directory of the example, the two dated names are yielded and
  \<^verbatim>\<open>notadate.tmp\<close> is skipped.
\<close>

theorem listdir_yields:
  "listdir p entries directory only_suffices =
     map (\<lambda>fn. \<lparr> ds_time = the (p (take 10 fn)), suffix = drop 10 fn, filename = fn,
                  path = path_join directory fn \<rparr>)
       (filter (\<lambda>fn. 10 \<le> length fn \<and> p (take 10 fn) \<noteq> None \<and>
                  (case only_suffices of
                     None \<Rightarrow> True
                   | Some S \<Rightarrow> S = {} \<or> drop 10 fn \<in> S))
          entries) \<and>
   listdir strptime_YmdH [''2024010100'', ''2024010100.gribmirror'', ''notadate.tmp'']
       ''/data'' None =
     [\<lparr> ds_time = (2024, 1, 1, 0), suffix = '''', filename = ''2024010100'',
        path = ''/data/2024010100'' \<rparr>,
      \<lparr> ds_time = (2024, 1, 1, 0), suffix = ''.gribmirror'',
        filename = ''2024010100.gribmirror'', path = ''/data/2024010100.gribmirror'' \<rparr>] \<and>
   listdir strptime_YmdH [''2024010100'', ''2024010100.gribmirror'', ''notadate.tmp'']
       ''/data'' (Some {''.gribmirror''}) =
     [\<lparr> ds_time = (2024, 1, 1, 0), suffix = ''.gribmirror'',
        filename = ''2024010100.gribmirror'', path = ''/data/2024010100.gribmirror'' \<rparr>]"
proof -
  have "listdir strptime_YmdH [''2024010100'', ''2024010100.gribmirror'', ''notadate.tmp'']
       ''/data'' None =
     [\<lparr> ds_time = (2024, 1, 1, 0), suffix = '''', filename = ''2024010100'',
        path = ''/data/2024010100'' \<rparr>,
      \<lparr> ds_time = (2024, 1, 1, 0), suffix = ''.gribmirror'',
        filename = ''2024010100.gribmirror'', path = ''/data/2024010100.gribmirror'' \<rparr>]"
    by (simp add: strptime_examples path_join_def)
  moreover have "listdir strptime_YmdH [''2024010100'', ''2024010100.gribmirror'', ''notadate.tmp'']
       ''/data'' (Some {''.gribmirror''}) =
     [\<lparr> ds_time = (2024, 1, 1, 0), suffix = ''.gribmirror'',
        filename = ''2024010100.gribmirror'', path = ''/data/2024010100.gribmirror'' \<rparr>]"
    by (simp add: strptime_examples path_join_def)
  ultimately show ?thesis using listdir_filter[of p entries directory only_suffices] by simp
qed

text \<open>
  Claim C8 as it stands fails for a filter that is given and empty: the entry is
  yielded although its suffix is not in the set.
\<close>

theorem listdir_empty_filter_counterexample:
  "listdir strptime_YmdH [''2024010100''] ''/data'' (Some {}) =
     [\<lparr> ds_time = (2024, 1, 1, 0), suffix = '''', filename = ''2024010100'',
        path = ''/data/2024010100'' \<rparr>] \<and>
   suffix (hd (listdir strptime_YmdH [''2024010100''] ''/data'' (Some {}))) \<notin> {}"
  by (simp add: strptime_examples path_join_def)

section \<open>Interleaved ingestions commit disjoint slots\<close>

lemma ior_keeps:
  assumes "array_ior a t = Inr m" and "getitem a loc = Inr True"
  shows "getitem m loc = Inr True"
proof -
  from assms(1) have "arr_shape a = arr_shape t" "length (arr_data a) = length (arr_data t)"
    by (simp_all add: array_ior_Inr)
  with assms(2) obtain y where "getitem t loc = Inr y"
    by (auto simp: getitem_Inr)
  with assms(2) show ?thesis by (simp add: getitem_ior[OF assms(1)])
qed

lemma no_any_disjoint:
  assumes "array_and a t = Inr both" and "\<not> array_any both"
  shows "\<not> (getitem a loc = Inr True \<and> getitem t loc = Inr True)"
proof
  assume b: "getitem a loc = Inr True \<and> getitem t loc = Inr True"
  from assms(1) have sh: "arr_shape a = arr_shape t"
    by (simp add: array_and_Inr)
  from b obtain n where n: "offset (arr_shape a) loc = Inr n" "n < length (arr_data a)" "arr_data a ! n"
    by (auto simp: getitem_Inr)
  from b sh n(1) have "arr_data t ! n" by (auto simp: getitem_Inr)
  with n have "array_any both" unfolding array_any_and[OF assms(1)] by blast
  with assms(2) show False by simp
qed

lemma quiet_callbackD:
  "quiet_callback args \<Longrightarrow> bool_arrays (snd (run_callback args it v)) = bool_arrays v"
  unfolding quiet_callback_def by blast

lemma task_step_args:
  assumes "task_step t w = (t', w')"
  shows "task_args t' = task_args t"
  using assms
  by (auto simp: task_step_def split: if_splits list.splits sum.splits prod.splits option.splits)

lemma task_step_cases:
  assumes "task_step t w = (t', w')" and quiet: "quiet_callback (task_args t)"
  shows "task_args t' = task_args t \<and>
    ((t' = t \<and> w' = w) \<or>
     (task_status t = Running \<and> task_status t' \<noteq> Succeeded \<and> bool_arrays w' = bool_arrays w) \<or>
     (task_status t = Running \<and> task_status t' = Succeeded \<and> task_locals t' = task_locals t \<and>
      (\<exists>c m both. checklist (task_args t) = Some c \<and>
          array_and (bool_arrays w c) (checklist_temp (task_locals t)) = Inr both \<and>
          \<not> array_any both \<and>
          array_ior (bool_arrays w c) (checklist_temp (task_locals t)) = Inr m \<and>
          w' = w\<lparr> bool_arrays := (bool_arrays w)(c := m) \<rparr>)))"
proof (cases "task_status t = Running")
  case False
  with assms(1) show ?thesis by (simp add: task_step_def)
next
  case run: True
  show ?thesis
  proof (cases "pending t")
    case Nil
    obtain q v where f: "finish (task_args t) w (task_locals t) = (q, v)"
      by (cases "finish (task_args t) w (task_locals t)") auto
    show ?thesis
    proof (cases q)
      case None
      from finish_None[OF f[unfolded None]] obtain c m ref both where
        "checklist (task_args t) = Some c"
        "array_and (bool_arrays w c) (checklist_temp (task_locals t)) = Inr both"
        "\<not> array_any both"
        "array_ior (bool_arrays w c) (checklist_temp (task_locals t)) = Inr m"
        "v = w\<lparr> bool_arrays := (bool_arrays w)(c := m) \<rparr>"
        by blast
      moreover from assms(1) run Nil f None
      have "t' = t\<lparr> task_status := Succeeded \<rparr>" "w' = v"
        by (simp_all add: task_step_def)
      ultimately show ?thesis using run by auto
    next
      case (Some e)
      from finish_failure[OF f[unfolded Some]] have "v = w" .
      moreover from assms(1) run Nil f Some
      have "t' = t\<lparr> task_status := Failed e \<rparr>" "w' = v"
        by (simp_all add: task_step_def)
      ultimately show ?thesis using run by auto
    qed
  next
    case (Cons x rest)
    show ?thesis
    proof (cases x)
      case (Inl e)
      with assms(1) run Cons have "t' = t\<lparr> task_status := Failed e \<rparr>" "w' = w"
        by (simp_all add: task_step_def)
      then show ?thesis using run by auto
    next
      case (Inr it)
      obtain q v s where u: "unpack_record (task_args t) it (w, task_locals t) = (q, v, s)"
        by (cases "unpack_record (task_args t) it (w, task_locals t)") auto
      from unpack_record_bool_arrays[OF u] have b: "bool_arrays v = bool_arrays w" .
      obtain q2 v2 where c: "run_callback (task_args t) it v = (q2, v2)"
        by (cases "run_callback (task_args t) it v") auto
      have b2: "bool_arrays v2 = bool_arrays w"
        using quiet_callbackD[OF quiet, of it v] c b by simp
      show ?thesis
      proof (cases q)
        case None
        show ?thesis
        proof (cases q2)
          case n2: None
          with assms(1) run Cons Inr u c None
          have "t' = t\<lparr> pending := rest, task_locals := s \<rparr>" "w' = v2"
            by (simp_all add: task_step_def)
          then show ?thesis using run b2 by auto
        next
          case (Some e)
          with assms(1) run Cons Inr u c None
          have "t' = t\<lparr> task_locals := s, task_status := Failed e \<rparr>" "w' = v2"
            by (simp_all add: task_step_def)
          then show ?thesis using run b2 by auto
        qed
      next
        case (Some e)
        with assms(1) run Cons Inr u
        have "t' = t\<lparr> task_locals := s, task_status := Failed e \<rparr>" "w' = v"
          by (simp_all add: task_step_def)
        then show ?thesis using run b by auto
      qed
    qed
  qed
qed

lemma safe_step:
  assumes "safe sys" and quiet: "\<forall>t \<in> set (sys_tasks sys). quiet_callback (task_args t)"
  shows "safe (sys_step k sys)"
proof (cases "k < length (sys_tasks sys)")
  case False
  with assms(1) show ?thesis by (simp add: sys_step_def)
next
  case k: True
  let ?ts = "sys_tasks sys"
  let ?w = "sys_world sys"
  let ?t = "?ts ! k"
  obtain t' w' where st: "task_step ?t ?w = (t', w')"
    by (cases "task_step ?t ?w") auto
  define sys' where "sys' = sys_step k sys"
  have sys': "sys_world sys' = w'" "sys_tasks sys' = ?ts[k := t']"
    using k st by (simp_all add: sys'_def sys_step_def)
  have other: "sys_tasks sys' ! i = ?ts ! i" if "i \<noteq> k" for i
    using that by (simp add: sys')
  have self: "sys_tasks sys' ! k = t'"
    using k by (simp add: sys')
  have len: "length (sys_tasks sys') = length ?ts"
    by (simp add: sys')
  from quiet k have qk: "quiet_callback (task_args (sys_tasks sys ! k))" by simp
  from task_step_args[OF st] have args: "task_args t' = task_args ?t" .
  from assms(1) have
    sub: "\<And>i c. committed sys i \<Longrightarrow> checklist (task_args (?ts ! i)) = Some c \<Longrightarrow>
             marked (?ts ! i) \<subseteq> {loc. getitem (bool_arrays ?w c) loc = Inr True}"
    and dis: "\<And>i j. committed sys i \<Longrightarrow> committed sys j \<Longrightarrow> i \<noteq> j \<Longrightarrow>
             checklist (task_args (?ts ! i)) = checklist (task_args (?ts ! j)) \<Longrightarrow>
             marked (?ts ! i) \<inter> marked (?ts ! j) = {}"
    unfolding safe_def by blast+
  from task_step_cases[OF st qk] consider
    (same) "t' = ?t" "w' = ?w"
    | (quiet) "task_status ?t = Running" "task_status t' \<noteq> Succeeded" "bool_arrays w' = bool_arrays ?w"
    | (commit) c m both where "task_status ?t = Running" "task_status t' = Succeeded"
        "task_locals t' = task_locals ?t" "checklist (task_args ?t) = Some c"
        "array_and (bool_arrays ?w c) (checklist_temp (task_locals ?t)) = Inr both"
        "\<not> array_any both"
        "array_ior (bool_arrays ?w c) (checklist_temp (task_locals ?t)) = Inr m"
        "w' = ?w\<lparr> bool_arrays := (bool_arrays ?w)(c := m) \<rparr>"
    by blast
  then have "safe sys'"
  proof cases
    case same
    then have "sys' = sys" using sys' by (simp add: list_update_same_conv)
    with assms(1) show ?thesis by simp
  next
    case quiet
    have com: "committed sys' i = (i \<noteq> k \<and> committed sys i)" for i
      using quiet(1,2) k by (cases "i = k") (auto simp: committed_def sys')
    show ?thesis
      unfolding safe_def
    proof (intro allI impI conjI)
      fix i c
      assume "committed sys' i" and "checklist (task_args (sys_tasks sys' ! i)) = Some c"
      then have "i \<noteq> k" "committed sys i" "checklist (task_args (?ts ! i)) = Some c"
        by (simp_all add: com other)
      from sub[OF this(2,3)] \<open>i \<noteq> k\<close>
      show "marked (sys_tasks sys' ! i) \<subseteq> {loc. getitem (bool_arrays (sys_world sys') c) loc = Inr True}"
        by (simp add: other sys'(1) quiet(3))
    next
      fix i j
      assume "committed sys' i"
        and "committed sys' j \<and> i \<noteq> j \<and>
             checklist (task_args (sys_tasks sys' ! i)) = checklist (task_args (sys_tasks sys' ! j))"
      then have "i \<noteq> k" "j \<noteq> k" "committed sys i" "committed sys j" "i \<noteq> j"
        "checklist (task_args (?ts ! i)) = checklist (task_args (?ts ! j))"
        by (simp_all add: com other)
      from dis[OF this(3,4,5,6)] \<open>i \<noteq> k\<close> \<open>j \<noteq> k\<close>
      show "marked (sys_tasks sys' ! i) \<inter> marked (sys_tasks sys' ! j) = {}"
        by (simp add: other)
    qed
  next
    case commit
    have notk: "\<not> committed sys k" using commit(1) by (simp add: committed_def)
    have com: "committed sys' i = (i = k \<or> committed sys i)" for i
      using commit(1,2) k by (cases "i = k") (auto simp: committed_def sys')
    have mk: "marked t' = marked ?t" by (simp add: marked_def commit(3))
    have new: "marked ?t \<subseteq> {loc. getitem m loc = Inr True}"
      using committed_slot[OF commit(7)] by (auto simp: marked_def)
    have fresh: "marked ?t \<inter> {loc. getitem (bool_arrays ?w c) loc = Inr True} = {}"
      using no_any_disjoint[OF commit(5,6)] by (auto simp: marked_def)
    have kept: "{loc. getitem (bool_arrays ?w c) loc = Inr True} \<subseteq> {loc. getitem m loc = Inr True}"
      using ior_keeps[OF commit(7)] by auto
    have arr: "bool_arrays w' a = (if a = c then m else bool_arrays ?w a)" for a
      by (simp add: commit(8))
    have old: "marked (?ts ! i) \<subseteq> {loc. getitem (bool_arrays w' a) loc = Inr True}"
      if "committed sys i" "checklist (task_args (?ts ! i)) = Some a" for i a
      using sub[OF that] kept by (auto simp: arr)
    have cross: "marked ?t \<inter> marked (?ts ! j) = {}"
      if "committed sys j" "checklist (task_args (?ts ! j)) = Some c" for j
      using sub[OF that] fresh by blast
    show ?thesis
      unfolding safe_def
    proof (intro allI impI conjI)
      fix i a
      assume ci: "committed sys' i" and ai: "checklist (task_args (sys_tasks sys' ! i)) = Some a"
      show "marked (sys_tasks sys' ! i) \<subseteq> {loc. getitem (bool_arrays (sys_world sys') a) loc = Inr True}"
      proof (cases "i = k")
        case True
        with ai have "a = c" by (simp add: self args commit(4))
        with True new show ?thesis by (simp add: self mk sys'(1) arr)
      next
        case False
        with ci ai have "committed sys i" "checklist (task_args (?ts ! i)) = Some a"
          by (simp_all add: com other)
        from old[OF this] False show ?thesis by (simp add: other sys'(1))
      qed
    next
      fix i j
      assume ci: "committed sys' i"
        and h: "committed sys' j \<and> i \<noteq> j \<and>
             checklist (task_args (sys_tasks sys' ! i)) = checklist (task_args (sys_tasks sys' ! j))"
      then have cj: "committed sys' j" and ne: "i \<noteq> j"
        and eq: "checklist (task_args (sys_tasks sys' ! i)) = checklist (task_args (sys_tasks sys' ! j))"
        by simp_all
      show "marked (sys_tasks sys' ! i) \<inter> marked (sys_tasks sys' ! j) = {}"
      proof (cases "i = k")
        case True
        with ne have jk: "j \<noteq> k" by simp
        with cj have "committed sys j" by (simp add: com)
        moreover from eq True jk have "checklist (task_args (?ts ! j)) = Some c"
          by (simp add: self other args commit(4))
        ultimately have "marked ?t \<inter> marked (?ts ! j) = {}" by (rule cross)
        with True jk show ?thesis by (simp add: self other mk)
      next
        case ik: False
        with ci have ci': "committed sys i" by (simp add: com)
        show ?thesis
        proof (cases "j = k")
          case True
          from eq True ik have "checklist (task_args (?ts ! i)) = Some c"
            by (simp add: self other args commit(4))
          with ci' have "marked ?t \<inter> marked (?ts ! i) = {}" by (rule cross)
          with True ik show ?thesis by (auto simp: self other mk)
        next
          case False
          with cj have "committed sys j" by (simp add: com)
          from dis[OF ci' this ne] eq ik False show ?thesis by (simp add: other)
        qed
      qed
    qed
  qed
  then show ?thesis by (simp add: sys'_def)
qed

lemma start_not_committed: "\<not> committed (start w calls) i"
  by (simp add: committed_def start_def spawn_def)

lemma safe_start: "safe (start w calls)"
  by (simp add: safe_def start_not_committed)

lemma sys_step_args: "map task_args (sys_tasks (sys_step k sys)) = map task_args (sys_tasks sys)"
proof (cases "k < length (sys_tasks sys)")
  case False
  then show ?thesis by (simp add: sys_step_def)
next
  case True
  obtain t' w' where st: "task_step (sys_tasks sys ! k) (sys_world sys) = (t', w')"
    by (cases "task_step (sys_tasks sys ! k) (sys_world sys)") auto
  from task_step_args[OF st] have "task_args t' = task_args (sys_tasks sys ! k)" .
  then have "(map task_args (sys_tasks sys))[k := task_args t'] = map task_args (sys_tasks sys)"
    using True by (simp add: list_update_same_conv)
  then show ?thesis using True st by (simp add: sys_step_def map_update)
qed

lemma run_args: "map task_args (sys_tasks (run schedule sys)) = map task_args (sys_tasks sys)"
  by (induction schedule arbitrary: sys) (simp_all add: sys_step_args)

lemma quiet_tasks:
  "(\<forall>t \<in> set (sys_tasks sys). quiet_callback (task_args t)) =
   (\<forall>args \<in> set (map task_args (sys_tasks sys)). quiet_callback args)"
  by simp

lemma safe_run:
  assumes "safe sys" and "\<forall>t \<in> set (sys_tasks sys). quiet_callback (task_args t)"
  shows "safe (run schedule sys)"
  using assms
proof (induction schedule arbitrary: sys)
  case Nil
  then show ?case by simp
next
  case (Cons k schedule)
  have "safe (sys_step k sys)" using Cons.prems by (rule safe_step)
  moreover have "\<forall>t \<in> set (sys_tasks (sys_step k sys)). quiet_callback (task_args t)"
    using Cons.prems(2) unfolding quiet_tasks sys_step_args .
  ultimately show ?case using Cons.IH by simp
qed

lemma run_start_args:
  assumes "i < length (sys_tasks (run schedule (start w calls)))"
  shows "task_args (sys_tasks (run schedule (start w calls)) ! i) = calls ! i"
proof -
  have m: "map task_args (sys_tasks (run schedule (start w calls))) = calls"
    by (simp add: run_args) (simp add: start_def spawn_def comp_def)
  from assms have "task_args (sys_tasks (run schedule (start w calls)) ! i) =
        map task_args (sys_tasks (run schedule (start w calls))) ! i"
    by simp
  then show ?thesis by (simp add: m)
qed

lemma finish_overlap:
  assumes "checklist args = Some c"
    and "array_and (bool_arrays v c) (checklist_temp s) = Inr both"
    and "array_any both"
  shows "\<exists>e. finish args v s = (Some e, v)"
    and "file_checklist_local s = Some ref \<Longrightarrow> deref v ref = {} \<Longrightarrow>
         finish args v s = (Some ChecklistRace, v)"
  using assms by (auto simp: finish_def)

text \<open>
  Claim C4, amended. Whatever the schedule of the blocks of the ingestions started
  on one store (their callbacks suspend them and write no checklist themselves), two
  ingestions that were given the same checklist and have both returned normally have
  marked disjoint sets of slots, and the slots an ingestion has committed are true in
  the checklist. The reason is the test after the loop: when the
  shared checklist and \<^verbatim>\<open>checklist_temp\<close> have a true bit in common as the loop ends, the
  call raises and merges nothing; the error is the race error when the test for missing
  records, which comes first, has passed.
\<close>

theorem no_slot_committed_twice:
  assumes quiet: "\<forall>args \<in> set calls. quiet_callback args"
    and "committed (run schedule (start w calls)) i"
    and "committed (run schedule (start w calls)) j"
    and "i \<noteq> j"
    and "checklist (calls ! i) = checklist (calls ! j)"
  shows "marked (sys_tasks (run schedule (start w calls)) ! i) \<inter>
           marked (sys_tasks (run schedule (start w calls)) ! j) = {} \<and>
         (\<forall>c. checklist (calls ! i) = Some c \<longrightarrow>
              marked (sys_tasks (run schedule (start w calls)) ! i) \<subseteq>
                {loc. getitem (bool_arrays (sys_world (run schedule (start w calls))) c) loc =
                        Inr True}) \<and>
         (\<forall>args v s c both.
              checklist args = Some c \<and>
              array_and (bool_arrays (v :: 'g world) c) (checklist_temp s) = Inr both \<and>
              array_any both \<longrightarrow>
              (\<exists>e. finish args v s = (Some e, v)) \<and>
              (\<forall>ref. file_checklist_local s = Some ref \<and> deref v ref = {} \<longrightarrow>
                     finish args v s = (Some ChecklistRace, v)))"
proof -
  let ?sys = "run schedule (start w calls)"
  have "\<forall>t \<in> set (sys_tasks (start w calls)). quiet_callback (task_args t)"
    using quiet by (simp add: start_def spawn_def)
  with safe_start have s: "safe ?sys" by (rule safe_run)
  from assms(2,3) have l: "i < length (sys_tasks ?sys)" "j < length (sys_tasks ?sys)"
    by (simp_all add: committed_def)
  have a: "task_args (sys_tasks ?sys ! i) = calls ! i" "task_args (sys_tasks ?sys ! j) = calls ! j"
    using l by (simp_all add: run_start_args)
  from s assms(2) have
    sub: "\<forall>c. checklist (task_args (sys_tasks ?sys ! i)) = Some c \<longrightarrow>
             marked (sys_tasks ?sys ! i) \<subseteq>
               {loc. getitem (bool_arrays (sys_world ?sys) c) loc = Inr True}"
    and dis: "\<forall>j. committed ?sys j \<and> i \<noteq> j \<and>
             checklist (task_args (sys_tasks ?sys ! i)) =
               checklist (task_args (sys_tasks ?sys ! j)) \<longrightarrow>
             marked (sys_tasks ?sys ! i) \<inter> marked (sys_tasks ?sys ! j) = {}"
    unfolding safe_def by blast+
  have c1: "marked (sys_tasks ?sys ! i) \<inter> marked (sys_tasks ?sys ! j) = {}"
    using dis assms(3,4,5) a by simp
  have c2: "\<forall>c. checklist (calls ! i) = Some c \<longrightarrow>
              marked (sys_tasks ?sys ! i) \<subseteq>
                {loc. getitem (bool_arrays (sys_world ?sys) c) loc = Inr True}"
    using sub a by simp
  have c3: "\<forall>args v s c both.
              checklist args = Some c \<and>
              array_and (bool_arrays (v :: 'g world) c) (checklist_temp s) = Inr both \<and>
              array_any both \<longrightarrow>
              (\<exists>e. finish args v s = (Some e, v)) \<and>
              (\<forall>ref. file_checklist_local s = Some ref \<and> deref v ref = {} \<longrightarrow>
                     finish args v s = (Some ChecklistRace, v))"
    using finish_overlap by blast
  from c1 c2 c3 show ?thesis by blast
qed

subsection \<open>Two files, interleaved\<close>

lemma task_step_record:
  assumes "task_status t = Running" and "pending t = Inr (r, loc, nm) # rest"
    and "unpack_record (task_args t) (r, loc, nm) (w, task_locals t) = (None, w', s')"
    and "run_callback (task_args t) (r, loc, nm) w' = (None, w'')"
  shows "task_step t w = (t\<lparr> pending := rest, task_locals := s' \<rparr>, w'')"
  using assms by (simp add: task_step_def)

lemma task_step_finish:
  assumes "task_status t = Running" and "pending t = []"
    and "finish (task_args t) w (task_locals t) = (None, w')"
  shows "task_step t w = (t\<lparr> task_status := Succeeded \<rparr>, w')"
  using assms by (simp add: task_step_def)

lemma locate_wind: "locate (3, 1000, ''wind_u'') = Inr (1, 0, 1)"
  by (simp add: locate_def hour_axis pressure_axis variable_axis index_def upt_conv_Cons)

lemma grib_records_wind: "grib_records [wind_record] = [Inr wind_item]"
  by (simp add: grib_records_def grib_record_def wind_record_def wind_item_def example_record_def
      grib_name_to_variable_def locate_wind)

lemma wind_record_simps:
  "forecastTime wind_record = 3"
  "check_axes wind_record = None"
  by (simp_all add: wind_record_def example_record_def check_axes_def)

lemma two_manifests_simps:
  "bool_arrays two_manifests a = Dataset_checklist"
  "name_sets two_manifests 0 = {(0, 1000, ''height'')}"
  "a \<noteq> 0 \<Longrightarrow> name_sets two_manifests a = {(3, 1000, ''wind_u'')}"
  by (simp_all add: two_manifests_def)

lemma interleaved_commits:
  "committed (run [0, 1, 0, 1] (start two_manifests two_calls)) 0"
  "committed (run [0, 1, 0, 1] (start two_manifests two_calls)) 1"
proof -
  let ?W = "two_manifests"
  let ?C0 = "example_call [height_record]"
  let ?C1 = "(example_call [wind_record])\<lparr> file_checklist := Some 1 \<rparr>"
  let ?A = "(0, 0, 0) :: location"
  let ?B = "(1, 0, 1) :: location"
  let ?nA = "(0, 1000, ''height'') :: location_name"
  let ?nB = "(3, 1000, ''wind_u'') :: location_name"
  define T0 where "T0 = spawn ?W ?C0"
  define T1 where "T1 = spawn ?W ?C1"
  have sys0: "start ?W two_calls = \<lparr> sys_world = ?W, sys_tasks = [T0, T1] \<rparr>"
    by (simp add: start_def two_calls_def T0_def T1_def)
  have T0: "task_args T0 = ?C0" "pending T0 = [Inr (height_record, ?A, ?nA)]"
    "task_status T0 = Running"
    "checklist_temp (task_locals T0) = Dataset_checklist"
    "checked_axes (task_locals T0) = False"
    "file_checklist_local (task_locals T0) = Some (Copied {?nA})"
    by (simp_all add: T0_def spawn_def example_call_simps grib_records_height height_item_def
        initial_locals_simps two_manifests_simps)
  have T1: "task_args T1 = ?C1" "pending T1 = [Inr (wind_record, ?B, ?nB)]"
    "task_status T1 = Running"
    "checklist_temp (task_locals T1) = Dataset_checklist"
    "checked_axes (task_locals T1) = False"
    "file_checklist_local (task_locals T1) = Some (Copied {?nB})"
    by (simp_all add: T1_def spawn_def example_call_simps grib_records_wind wind_item_def
        initial_locals_simps two_manifests_simps)
  have C: "checklist ?C0 = Some 0" "checklist ?C1 = Some 0"
    "assert_hour ?C0 = None" "assert_hour ?C1 = None"
    by (simp_all add: example_call_simps)
  \<comment> \<open>first block of the first task: its record\<close>
  have "\<exists>t. setitem (checklist_temp (task_locals T0)) ?A True = Inr t \<and>
           unpack_record (task_args T0) (height_record, ?A, ?nA) (?W, task_locals T0) =
             (None, write_record (task_args T0) (height_record, ?A, ?nA) ?W,
              (task_locals T0)\<lparr> checked_axes := True, checklist_temp := t,
                 file_checklist_local :=
                   (case file_checklist_local (task_locals T0) of
                      None \<Rightarrow> None
                    | Some ref \<Rightarrow> Some (Copied (deref ?W ref - {?nA}))) \<rparr>)"
    by (rule unpack_record_ok[where c = 0])
       (simp_all add: T0 C getitem_Dataset_checklist in_range_iff two_manifests_simps
          height_record_simps)
  then obtain t0 where t0: "setitem Dataset_checklist ?A True = Inr t0"
    and u0: "unpack_record ?C0 (height_record, ?A, ?nA) (?W, task_locals T0) =
             (None, write_record ?C0 (height_record, ?A, ?nA) ?W,
              (task_locals T0)\<lparr> checked_axes := True, checklist_temp := t0,
                 file_checklist_local := Some (Copied {}) \<rparr>)"
    by (auto simp: T0)
  have nocb: "run_callback ?C0 it v = (None, v)" "run_callback ?C1 it v = (None, v)" for it v
    by (simp_all add: run_callback_def example_call_simps)
  define W1 where "W1 = write_record ?C0 (height_record, ?A, ?nA) ?W"
  define S0 where "S0 = (task_locals T0)\<lparr> checked_axes := True, checklist_temp := t0,
                 file_checklist_local := Some (Copied {}) \<rparr>"
  define T0a where "T0a = T0\<lparr> pending := [], task_locals := S0 \<rparr>"
  have st0: "task_step T0 ?W = (T0a, W1)"
    using task_step_record[OF T0(3) T0(2), of ?W W1 S0 W1] u0 nocb(1)
    by (simp add: T0(1) T0a_def W1_def S0_def)
  have sys1: "sys_step 0 (start ?W two_calls) = \<lparr> sys_world = W1, sys_tasks = [T0a, T1] \<rparr>"
    by (simp add: sys_step_def sys0 st0)
  have W1: "bool_arrays W1 = bool_arrays ?W"
    by (simp add: W1_def write_record_bool_arrays)
  \<comment> \<open>first block of the second task: its record\<close>
  have "\<exists>t. setitem (checklist_temp (task_locals T1)) ?B True = Inr t \<and>
           unpack_record (task_args T1) (wind_record, ?B, ?nB) (W1, task_locals T1) =
             (None, write_record (task_args T1) (wind_record, ?B, ?nB) W1,
              (task_locals T1)\<lparr> checked_axes := True, checklist_temp := t,
                 file_checklist_local :=
                   (case file_checklist_local (task_locals T1) of
                      None \<Rightarrow> None
                    | Some ref \<Rightarrow> Some (Copied (deref W1 ref - {?nB}))) \<rparr>)"
    by (rule unpack_record_ok[where c = 0])
       (simp_all add: T1 example_call_simps W1 getitem_Dataset_checklist in_range_iff
          two_manifests_simps wind_record_simps)
  then obtain t1 where t1: "setitem Dataset_checklist ?B True = Inr t1"
    and u1: "unpack_record ?C1 (wind_record, ?B, ?nB) (W1, task_locals T1) =
             (None, write_record ?C1 (wind_record, ?B, ?nB) W1,
              (task_locals T1)\<lparr> checked_axes := True, checklist_temp := t1,
                 file_checklist_local := Some (Copied {}) \<rparr>)"
    by (auto simp: T1)
  define W2 where "W2 = write_record ?C1 (wind_record, ?B, ?nB) W1"
  define S1 where "S1 = (task_locals T1)\<lparr> checked_axes := True, checklist_temp := t1,
                 file_checklist_local := Some (Copied {}) \<rparr>"
  define T1a where "T1a = T1\<lparr> pending := [], task_locals := S1 \<rparr>"
  have st1: "task_step T1 W1 = (T1a, W2)"
    using task_step_record[OF T1(3) T1(2), of W1 W2 S1 W2] u1 nocb(2)
    by (simp add: T1(1) T1a_def W2_def S1_def)
  have sys2: "sys_step 1 \<lparr> sys_world = W1, sys_tasks = [T0a, T1] \<rparr> =
              \<lparr> sys_world = W2, sys_tasks = [T0a, T1a] \<rparr>"
    by (simp add: sys_step_def st1)
  have W2: "bool_arrays W2 = bool_arrays ?W"
    by (simp add: W2_def write_record_bool_arrays W1)
  \<comment> \<open>second block of the first task: the merge\<close>
  have m0: "marks (checklist_temp S0) {?A}"
    using marks_setitem[OF marks_Dataset_checklist t0] by (simp add: S0_def)
  have f0: "free_for {?A} (bool_arrays W2 0)"
    by (simp add: W2 two_manifests_simps free_for_Dataset_checklist)
  have fc0: "file_checklist_local S0 = Some (Copied {})" by (simp add: S0_def)
  from finish_commits[OF fc0 _ C(1) m0 f0] obtain mg where
    fin0: "finish ?C0 W2 S0 = (None, W2\<lparr> bool_arrays := (bool_arrays W2)(0 := mg) \<rparr>)"
    and mg: "is_checklist mg"
      "\<And>loc. getitem mg loc = (if loc \<in> {?A} then Inr True else getitem (bool_arrays W2 0) loc)"
    by auto
  define W3 where "W3 = W2\<lparr> bool_arrays := (bool_arrays W2)(0 := mg) \<rparr>"
  define T0b where "T0b = T0a\<lparr> task_status := Succeeded \<rparr>"
  have st2: "task_step T0a W2 = (T0b, W3)"
    unfolding T0b_def W3_def
    by (rule task_step_finish) (simp_all add: T0a_def T0 fin0)
  have sys3: "sys_step 0 \<lparr> sys_world = W2, sys_tasks = [T0a, T1a] \<rparr> =
              \<lparr> sys_world = W3, sys_tasks = [T0b, T1a] \<rparr>"
    by (simp add: sys_step_def st2)
  \<comment> \<open>second block of the second task: the merge\<close>
  have m1: "marks (checklist_temp S1) {?B}"
    using marks_setitem[OF marks_Dataset_checklist t1] by (simp add: S1_def)
  have f1: "free_for {?B} (bool_arrays W3 0)"
    by (simp add: W3_def free_for_def mg W2 two_manifests_simps getitem_Dataset_checklist in_range_iff)
  have fc1: "file_checklist_local S1 = Some (Copied {})" by (simp add: S1_def)
  from finish_commits[OF fc1 _ C(2) m1 f1] obtain mg' where
    fin1: "finish ?C1 W3 S1 = (None, W3\<lparr> bool_arrays := (bool_arrays W3)(0 := mg') \<rparr>)"
    by auto
  define W4 where "W4 = W3\<lparr> bool_arrays := (bool_arrays W3)(0 := mg') \<rparr>"
  define T1b where "T1b = T1a\<lparr> task_status := Succeeded \<rparr>"
  have st3: "task_step T1a W3 = (T1b, W4)"
    unfolding T1b_def W4_def
    by (rule task_step_finish) (use fin1 in \<open>simp_all add: T1a_def T1\<close>)
  have sys4: "sys_step 1 \<lparr> sys_world = W3, sys_tasks = [T0b, T1a] \<rparr> =
              \<lparr> sys_world = W4, sys_tasks = [T0b, T1b] \<rparr>"
    by (simp add: sys_step_def st3)
  have final: "run [0, 1, 0, 1] (start ?W two_calls) = \<lparr> sys_world = W4, sys_tasks = [T0b, T1b] \<rparr>"
    using sys1 sys2 sys3 sys4 by simp
  show "committed (run [0, 1, 0, 1] (start ?W two_calls)) 0"
    unfolding final by (simp add: committed_def T0b_def)
  show "committed (run [0, 1, 0, 1] (start ?W two_calls)) 1"
    unfolding final by (simp add: committed_def T1b_def)
qed

theorem no_slot_committed_twice_witness:
  "committed (run [0, 1, 0, 1] (start two_manifests two_calls)) 0 \<and>
   committed (run [0, 1, 0, 1] (start two_manifests two_calls)) 1 \<and>
   marked (sys_tasks (run [0, 1, 0, 1] (start two_manifests two_calls)) ! 0) \<inter>
   marked (sys_tasks (run [0, 1, 0, 1] (start two_manifests two_calls)) ! 1) = {}"
proof -
  have eq: "checklist (two_calls ! 0) = checklist (two_calls ! 1)"
    by (simp add: two_calls_def example_call_simps)
  have ne: "(0 :: nat) \<noteq> 1" by simp
  have quiet: "\<forall>args \<in> set two_calls. quiet_callback args"
    by (simp add: two_calls_def quiet_callback_def run_callback_def example_call_simps)
  note d = no_slot_committed_twice[OF quiet interleaved_commits(1) interleaved_commits(2) ne eq,
      THEN conjunct1]
  show ?thesis by (intro conjI interleaved_commits d)
qed

subsection \<open>An overlap behind missing records\<close>

text \<open>
  Claim C4 as it stands says that an overlap found when the loop ends is answered by
  the race error. The test for missing records comes first: below, another ingestion
  commits slot (0, 0, 0) while the task is suspended in its callback; when the loop
  ends the shared checklist and \<^verbatim>\<open>checklist_temp\<close> are both true there, the manifest
  still holds a name, and the call raises for missing records.
\<close>

theorem race_behind_missing_records_counterexample:
  "fst (unpack_loop raced_call (grib_records (grib raced_call))
          (example_world {(0, 1000, ''height''), (3, 1000, ''wind_u'')},
           initial_locals raced_call (example_world {(0, 1000, ''height''), (3, 1000, ''wind_u'')}))) = None \<and>
   getitem (bool_arrays (fst (snd (unpack_loop raced_call (grib_records (grib raced_call))
          (example_world {(0, 1000, ''height''), (3, 1000, ''wind_u'')},
           initial_locals raced_call (example_world {(0, 1000, ''height''), (3, 1000, ''wind_u'')}))))) 0)
      (0, 0, 0) = Inr True \<and>
   getitem (checklist_temp (snd (snd (unpack_loop raced_call (grib_records (grib raced_call))
          (example_world {(0, 1000, ''height''), (3, 1000, ''wind_u'')},
           initial_locals raced_call (example_world {(0, 1000, ''height''), (3, 1000, ''wind_u'')})))))) 
      (0, 0, 0) = Inr True \<and>
   fst (unpack_grib raced_call (example_world {(0, 1000, ''height''), (3, 1000, ''wind_u'')})) =
     Some RecordsMissing"
proof -
  let ?W = "example_world {(0, 1000, ''height''), (3, 1000, ''wind_u'')}"
  let ?A = "(0, 0, 0) :: location"
  let ?nA = "(0, 1000, ''height'') :: location_name"
  let ?s0 = "initial_locals raced_call ?W"
  have R: "grib raced_call = [height_record]" "checklist raced_call = Some 0"
    "assert_hour raced_call = None" "file_checklist raced_call = Some 0"
    "callback raced_call = Some other_commits"
    by (simp_all add: raced_call_def example_call_simps)
  have s0: "checklist_temp ?s0 = Dataset_checklist" "checked_axes ?s0 = False"
    "file_checklist_local ?s0 = Some (Copied {?nA, (3, 1000, ''wind_u'')})"
    by (simp_all add: initial_locals_simps R example_world_simps)
  have "\<exists>t. setitem (checklist_temp ?s0) ?A True = Inr t \<and>
           unpack_record raced_call (height_record, ?A, ?nA) (?W, ?s0) =
             (None, write_record raced_call (height_record, ?A, ?nA) ?W,
              ?s0\<lparr> checked_axes := True, checklist_temp := t,
                 file_checklist_local :=
                   (case file_checklist_local ?s0 of
                      None \<Rightarrow> None
                    | Some ref \<Rightarrow> Some (Copied (deref ?W ref - {?nA}))) \<rparr>)"
    by (rule unpack_record_ok[where c = 0])
       (simp_all add: s0 R getitem_Dataset_checklist in_range_iff example_world_simps
          height_record_simps)
  then obtain t where t: "setitem Dataset_checklist ?A True = Inr t"
    and u: "unpack_record raced_call (height_record, ?A, ?nA) (?W, ?s0) =
             (None, write_record raced_call (height_record, ?A, ?nA) ?W,
              ?s0\<lparr> checked_axes := True, checklist_temp := t,
                 file_checklist_local := Some (Copied {(3, 1000, ''wind_u'')}) \<rparr>)"
    by (auto simp: s0)
  define v where "v = snd (run_callback raced_call (height_record, ?A, ?nA)
                        (write_record raced_call (height_record, ?A, ?nA) ?W))"
  have rc: "run_callback raced_call (height_record, ?A, ?nA)
              (write_record raced_call (height_record, ?A, ?nA) ?W) = (None, v)"
    by (simp add: v_def run_callback_def R other_commits_def)
  define s where "s = ?s0\<lparr> checked_axes := True, checklist_temp := t,
                 file_checklist_local := Some (Copied {(3, 1000, ''wind_u'')}) \<rparr>"
  have l: "unpack_loop raced_call (grib_records (grib raced_call)) (?W, ?s0) = (None, v, s)"
    using u by (simp add: R(1) grib_records_height height_item_def rc s_def)
  have shared: "getitem (bool_arrays v 0) ?A = Inr True"
    by (simp add: v_def run_callback_def R other_commits_def write_record_bool_arrays
        example_world_simps getitem_def checklist_shape checklist_length)
  have temp: "getitem (checklist_temp s) ?A = Inr True"
    by (simp add: s_def getitem_setitem[OF t])
  have "finish raced_call v s = (Some RecordsMissing, v)"
    by (simp add: finish_def s_def)
  then have "unpack_grib raced_call ?W = (Some RecordsMissing, v)"
    by (simp add: unpack_grib_def l)
  with l shared temp show ?thesis by simp
qed

subsection \<open>A task that runs alone is a call of unpack\_grib\<close>

lemma outcome_unpack_grib:
  "outcome args (grib_records (grib args)) (w, initial_locals args w) =
     (case unpack_grib args w of (None, v) \<Rightarrow> (Succeeded, v) | (Some e, v) \<Rightarrow> (Failed e, v))"
  by (auto simp: outcome_def unpack_grib_def split: prod.splits option.splits)

lemma sys_step_finished:
  assumes "i < length (sys_tasks sys)" and "task_status (sys_tasks sys ! i) \<noteq> Running"
  shows "sys_step i sys = sys"
  using assms by (simp add: sys_step_def task_step_def)

lemma run_finished:
  assumes "i < length (sys_tasks sys)" and "task_status (sys_tasks sys ! i) \<noteq> Running"
  shows "run (replicate n i) sys = sys"
  using assms by (induction n) (simp_all add: sys_step_finished)

lemma run_alone:
  assumes "i < length ts" and "ts ! i = t" and "task_status t = Running"
  shows "\<exists>t'. run (replicate (Suc (length (pending t))) i) \<lparr> sys_world = w, sys_tasks = ts \<rparr> =
            \<lparr> sys_world = snd (outcome (task_args t) (pending t) (w, task_locals t)),
              sys_tasks = ts[i := t'] \<rparr> \<and>
          task_status t' = fst (outcome (task_args t) (pending t) (w, task_locals t))"
  using assms
proof (induction "pending t" arbitrary: t w ts)
  case Nil
  then have p: "pending t = []" by simp
  obtain q v where f: "finish (task_args t) w (task_locals t) = (q, v)"
    by (cases "finish (task_args t) w (task_locals t)") auto
  show ?case
  proof (cases q)
    case None
    have "run (replicate (Suc (length (pending t))) i) \<lparr> sys_world = w, sys_tasks = ts \<rparr> =
            \<lparr> sys_world = v, sys_tasks = ts[i := t\<lparr> task_status := Succeeded \<rparr>] \<rparr>"
      using Nil.prems p f None by (simp add: sys_step_def task_step_def)
    moreover have "outcome (task_args t) (pending t) (w, task_locals t) = (Succeeded, v)"
      using p f None by (simp add: outcome_def)
    ultimately show ?thesis by (intro exI[of _ "t\<lparr> task_status := Succeeded \<rparr>"]) simp
  next
    case (Some e)
    have "run (replicate (Suc (length (pending t))) i) \<lparr> sys_world = w, sys_tasks = ts \<rparr> =
            \<lparr> sys_world = v, sys_tasks = ts[i := t\<lparr> task_status := Failed e \<rparr>] \<rparr>"
      using Nil.prems p f Some by (simp add: sys_step_def task_step_def)
    moreover have "outcome (task_args t) (pending t) (w, task_locals t) = (Failed e, v)"
      using p f Some by (simp add: outcome_def)
    ultimately show ?thesis by (intro exI[of _ "t\<lparr> task_status := Failed e \<rparr>"]) simp
  qed
next
  case (Cons x rest)
  then have p: "pending t = x # rest" by simp
  let ?n = "Suc (length rest)"
  show ?case
  proof (cases x)
    case (Inl e)
    define t1 where "t1 = t\<lparr> task_status := Failed e \<rparr>"
    have s1: "sys_step i \<lparr> sys_world = w, sys_tasks = ts \<rparr> = \<lparr> sys_world = w, sys_tasks = ts[i := t1] \<rparr>"
      using Cons.prems p Inl by (simp add: sys_step_def task_step_def t1_def)
    have "run (replicate ?n i) \<lparr> sys_world = w, sys_tasks = ts[i := t1] \<rparr> =
            \<lparr> sys_world = w, sys_tasks = ts[i := t1] \<rparr>"
      using Cons.prems(1) by (intro run_finished) (simp_all add: t1_def)
    with s1 have "run (replicate (Suc (length (pending t))) i) \<lparr> sys_world = w, sys_tasks = ts \<rparr> =
            \<lparr> sys_world = w, sys_tasks = ts[i := t1] \<rparr>"
      by (simp add: p)
    moreover have "outcome (task_args t) (pending t) (w, task_locals t) = (Failed e, w)"
      by (simp add: outcome_def p Inl)
    ultimately show ?thesis by (intro exI[of _ t1]) (simp add: t1_def)
  next
    case (Inr it)
    obtain q v s where u: "unpack_record (task_args t) it (w, task_locals t) = (q, v, s)"
      by (cases "unpack_record (task_args t) it (w, task_locals t)") auto
    show ?thesis
    proof (cases q)
      case (Some e)
      define t1 where "t1 = t\<lparr> task_locals := s, task_status := Failed e \<rparr>"
      have s1: "sys_step i \<lparr> sys_world = w, sys_tasks = ts \<rparr> = \<lparr> sys_world = v, sys_tasks = ts[i := t1] \<rparr>"
        using Cons.prems p Inr u Some by (simp add: sys_step_def task_step_def t1_def)
      have "run (replicate ?n i) \<lparr> sys_world = v, sys_tasks = ts[i := t1] \<rparr> =
            \<lparr> sys_world = v, sys_tasks = ts[i := t1] \<rparr>"
        using Cons.prems(1) by (intro run_finished) (simp_all add: t1_def)
      with s1 have "run (replicate (Suc (length (pending t))) i) \<lparr> sys_world = w, sys_tasks = ts \<rparr> =
            \<lparr> sys_world = v, sys_tasks = ts[i := t1] \<rparr>"
        by (simp add: p)
      moreover have "outcome (task_args t) (pending t) (w, task_locals t) = (Failed e, v)"
        by (simp add: outcome_def p Inr u Some)
      ultimately show ?thesis by (intro exI[of _ t1]) (simp add: t1_def)
    next
      case None
      obtain q2 w1 where c: "run_callback (task_args t) it v = (q2, w1)"
        by (cases "run_callback (task_args t) it v") auto
      show ?thesis
      proof (cases q2)
        case (Some e)
        define t1 where "t1 = t\<lparr> task_locals := s, task_status := Failed e \<rparr>"
        have s1: "sys_step i \<lparr> sys_world = w, sys_tasks = ts \<rparr> =
                    \<lparr> sys_world = w1, sys_tasks = ts[i := t1] \<rparr>"
          using Cons.prems p Inr u None c Some by (simp add: sys_step_def task_step_def t1_def)
        have "run (replicate ?n i) \<lparr> sys_world = w1, sys_tasks = ts[i := t1] \<rparr> =
              \<lparr> sys_world = w1, sys_tasks = ts[i := t1] \<rparr>"
          using Cons.prems(1) by (intro run_finished) (simp_all add: t1_def)
        with s1 have "run (replicate (Suc (length (pending t))) i) \<lparr> sys_world = w, sys_tasks = ts \<rparr> =
              \<lparr> sys_world = w1, sys_tasks = ts[i := t1] \<rparr>"
          by (simp add: p)
        moreover have "outcome (task_args t) (pending t) (w, task_locals t) = (Failed e, w1)"
          by (simp add: outcome_def p Inr u None c Some)
        ultimately show ?thesis by (intro exI[of _ t1]) (simp add: t1_def)
      next
        case n2: None
        define t1 where "t1 = t\<lparr> pending := rest, task_locals := s \<rparr>"
        have s1: "sys_step i \<lparr> sys_world = w, sys_tasks = ts \<rparr> =
                    \<lparr> sys_world = w1, sys_tasks = ts[i := t1] \<rparr>"
          using Cons.prems p Inr u None c n2 by (simp add: sys_step_def task_step_def t1_def)
        have h: "rest = pending t1" "i < length (ts[i := t1])" "ts[i := t1] ! i = t1"
          "task_status t1 = Running"
          using Cons.prems by (simp_all add: t1_def)
        from Cons.hyps(1)[OF h, of w1] obtain t' where
          r: "run (replicate (Suc (length (pending t1))) i) \<lparr> sys_world = w1, sys_tasks = ts[i := t1] \<rparr> =
              \<lparr> sys_world = snd (outcome (task_args t1) (pending t1) (w1, task_locals t1)),
                sys_tasks = ts[i := t1, i := t'] \<rparr>"
          and st: "task_status t' = fst (outcome (task_args t1) (pending t1) (w1, task_locals t1))"
          by blast
        have o: "outcome (task_args t) (pending t) (w, task_locals t) =
                 outcome (task_args t1) (pending t1) (w1, task_locals t1)"
          by (simp add: outcome_def p Inr u None c n2 t1_def)
        have "run (replicate (Suc (length (pending t))) i) \<lparr> sys_world = w, sys_tasks = ts \<rparr> =
              run (replicate (Suc (length (pending t1))) i) \<lparr> sys_world = w1, sys_tasks = ts[i := t1] \<rparr>"
          using s1 by (simp add: p t1_def)
        with r st o show ?thesis by (intro exI[of _ t']) simp
      qed
    qed
  qed
qed

lemma task_alone_is_unpack_grib:
  "sys_world (run (replicate (Suc (length (grib_records (grib args)))) 0) (start w [args])) =
     snd (unpack_grib args w) \<and>
   task_status (sys_tasks (run (replicate (Suc (length (grib_records (grib args)))) 0)
       (start w [args])) ! 0) =
     (case fst (unpack_grib args w) of None \<Rightarrow> Succeeded | Some e \<Rightarrow> Failed e)"
proof -
  let ?t = "spawn w args"
  have "\<exists>t'. run (replicate (Suc (length (pending ?t))) 0) \<lparr> sys_world = w, sys_tasks = [?t] \<rparr> =
            \<lparr> sys_world = snd (outcome (task_args ?t) (pending ?t) (w, task_locals ?t)),
              sys_tasks = [?t][0 := t'] \<rparr> \<and>
          task_status t' = fst (outcome (task_args ?t) (pending ?t) (w, task_locals ?t))"
    by (rule run_alone) (simp_all add: spawn_def)
  then obtain t' where
    r: "run (replicate (Suc (length (grib_records (grib args)))) 0) (start w [args]) =
          \<lparr> sys_world = snd (outcome args (grib_records (grib args)) (w, initial_locals args w)),
            sys_tasks = [t'] \<rparr>"
    and st: "task_status t' = fst (outcome args (grib_records (grib args)) (w, initial_locals args w))"
    by (auto simp: spawn_def start_def)
  show ?thesis
    unfolding r using st
    by (simp add: outcome_unpack_grib split: prod.splits option.splits)
qed

end
